theory Spec2Isabelle
  imports Main "HOL-Library.Sublist" "HOL-Library.Monad_Syntax"
begin

section \<open>Document Genie: a shallow embedding of streamlit\_App.py\<close>

text \<open>
  The program is a Streamlit script: every user interaction runs the script once, from
  top to bottom. A run reads the widgets (question field, key field, uploaded files,
  the process button), may call hosted services, may write the index to local storage
  and prints to the page. The model makes each of these explicit:
  \<^item> strings are \<open>string\<close> (lists of characters; a character stands for one code point
    below 256, and \<open>length\<close> is Python's \<open>len\<close>);
  \<^item> an exception is a value of \<open>error\<close>; a function that may raise returns
    \<open>error + 'a\<close>, and a procedure acting on the world returns \<open>error option\<close> (the
    uncaught exception, if any) together with the world it leaves behind;
  \<^item> the hosted services and the vector-index library are opaque: they are the fields
    of an \<open>env\<close> record, functions of exactly the arguments the script hands over;
  \<^item> the world is a record of the local storage, the page, the logger's output and the
    trace of calls made to the outside.
\<close>

subsection \<open>Exceptions\<close>

datatype error =
    PdfReadError
  | IndexError
  | FileNotFoundError
  | ValueError string
  | OtherError string

subsection \<open>Uploaded documents and text extraction\<close>

text \<open>
  An uploaded file, as \<open>PdfReader\<close> sees it: either the reader cannot open it (it is
  not a PDF, it is truncated, it has no bytes) and the constructor raises, or it has a
  list of pages, and \<open>extract_text()\<close> of a page gives \<open>None\<close> or a string.
\<close>

datatype pdf = Unreadable | Pdf "string option list"

fun PdfReader :: "pdf \<Rightarrow> error + string option list" where
  "PdfReader Unreadable = Inl PdfReadError"
| "PdfReader (Pdf pages) = Inr pages"

text \<open>\<open>page.extract_text() or ""\<close>: \<open>None\<close> and the empty string both give \<open>""\<close>.\<close>

fun page_text :: "string option \<Rightarrow> string" where
  "page_text None = []"
| "page_text (Some t) = t"

text \<open>The inner loop, \<open>for page in pdf_reader.pages: text += ...\<close>.\<close>

fun extract_pages :: "string \<Rightarrow> string option list \<Rightarrow> string" where
  "extract_pages text [] = text"
| "extract_pages text (page # pages) = extract_pages (text @ page_text page) pages"

text \<open>The outer loop, \<open>for pdf in pdf_docs\<close>; an exception of the reader ends it.\<close>

fun get_pdf_text_loop :: "string \<Rightarrow> pdf list \<Rightarrow> error + string" where
  "get_pdf_text_loop text [] = Inr text"
| "get_pdf_text_loop text (pdf # pdf_docs) =
     (case PdfReader pdf of
        Inl e \<Rightarrow> Inl e
      | Inr pages \<Rightarrow> get_pdf_text_loop (extract_pages text pages) pdf_docs)"

definition get_pdf_text :: "pdf list \<Rightarrow> error + string" where
  "get_pdf_text pdf_docs = get_pdf_text_loop [] pdf_docs"

subsection \<open>The text splitter\<close>

text \<open>
  \<open>get_text_chunks\<close> builds a \<open>RecursiveCharacterTextSplitter\<close> with
  \<open>chunk_size=10000\<close> and \<open>chunk_overlap=1000\<close> and calls \<open>split_text\<close>. The class
  belongs to the langchain library; every other parameter keeps the library's default:
  separators \<open>["\n\n", "\n", " ", ""]\<close>, \<open>keep_separator=True\<close>,
  \<open>is_separator_regex=False\<close>, \<open>length_function=len\<close>, \<open>strip_whitespace=True\<close>.
  The definitions below follow the library's methods of the same names, specialised to
  these defaults.
\<close>

text \<open>\<open>str.isspace\<close> on one character (code points below 256).\<close>

definition isspace :: "char \<Rightarrow> bool" where
  "isspace c = ((of_char c :: nat) \<in> {9, 10, 11, 12, 13, 28, 29, 30, 31, 32, 133, 160})"

text \<open>\<open>str.strip()\<close>.\<close>

definition strip :: "string \<Rightarrow> string" where
  "strip s = rev (dropWhile isspace (rev (dropWhile isspace s)))"

text \<open>\<open>separator.join(docs)\<close>.\<close>

fun str_join :: "string \<Rightarrow> string list \<Rightarrow> string" where
  "str_join sep [] = []"
| "str_join sep [d] = d"
| "str_join sep (d # ds) = d @ sep @ str_join sep ds"

text \<open>\<open>TextSplitter._join_docs\<close>: join, strip, and \<open>None\<close> for an empty result.\<close>

definition join_docs :: "string list \<Rightarrow> string \<Rightarrow> string option" where
  "join_docs docs separator =
     (let text = strip (str_join separator docs)
      in if text = [] then None else Some text)"

text \<open>
  The \<open>while\<close> loop of \<open>TextSplitter._merge_splits\<close>, which drops pieces from the front
  of \<open>current_doc\<close> until what is left fits the overlap and leaves room for the next
  piece. \<open>current_doc[0]\<close> on an empty list raises \<open>IndexError\<close> (\<open>None\<close> here).
  \<open>total\<close> is a Python integer and is modelled as \<open>int\<close>.
\<close>

fun pop_overlap ::
  "int \<Rightarrow> int \<Rightarrow> int \<Rightarrow> int \<Rightarrow> string list \<Rightarrow> int \<Rightarrow> (string list \<times> int) option" where
  "pop_overlap chunk_size chunk_overlap separator_len len [] tot =
     (if tot > chunk_overlap \<or> (tot + len + 0 > chunk_size \<and> tot > 0)
      then None
      else Some ([], tot))"
| "pop_overlap chunk_size chunk_overlap separator_len len (d # ds) tot =
     (if tot > chunk_overlap \<or> (tot + len + separator_len > chunk_size \<and> tot > 0)
      then pop_overlap chunk_size chunk_overlap separator_len len ds
             (tot - (int (length d) + (if length (d # ds) > 1 then separator_len else 0)))
      else Some (d # ds, tot))"

text \<open>
  One round of the \<open>for d in splits\<close> loop of \<open>_merge_splits\<close>, on its three
  variables \<open>docs\<close>, \<open>current_doc\<close> and \<open>total\<close>: when the piece \<open>d\<close> does not fit,
  the current document is emitted and its front is dropped down to the overlap; then
  \<open>d\<close> is appended. (The warning logged when \<open>total\<close> exceeds the chunk size changes
  nothing.)
\<close>

definition merge_step ::
  "int \<Rightarrow> int \<Rightarrow> string \<Rightarrow> string list \<times> string list \<times> int \<Rightarrow> string
     \<Rightarrow> (string list \<times> string list \<times> int) option" where
  "merge_step chunk_size chunk_overlap separator st d =
     (case st of (docs, current_doc, tot) \<Rightarrow>
        let separator_len = int (length separator);
            len = int (length d)
        in if tot + len + (if length current_doc > 0 then separator_len else 0) > chunk_size
              \<and> length current_doc > 0
           then
             (case pop_overlap chunk_size chunk_overlap separator_len len current_doc tot of
                None \<Rightarrow> None
              | Some (current_doc', tot') \<Rightarrow>
                  Some (docs @ (case join_docs current_doc separator of
                                  None \<Rightarrow> [] | Some doc \<Rightarrow> [doc]),
                        current_doc' @ [d],
                        tot' + len
                          + (if length (current_doc' @ [d]) > 1 then separator_len else 0)))
           else
             Some (docs, current_doc @ [d],
                   tot + len + (if length (current_doc @ [d]) > 1 then separator_len else 0)))"

text \<open>The loop itself, and the final \<open>_join_docs\<close> after it.\<close>

fun merge_splits_loop ::
  "int \<Rightarrow> int \<Rightarrow> string \<Rightarrow> string list \<times> string list \<times> int \<Rightarrow> string list
     \<Rightarrow> string list option" where
  "merge_splits_loop chunk_size chunk_overlap separator st [] =
     (case st of (docs, current_doc, tot) \<Rightarrow>
        Some (docs @ (case join_docs current_doc separator of
                        None \<Rightarrow> [] | Some doc \<Rightarrow> [doc])))"
| "merge_splits_loop chunk_size chunk_overlap separator st (d # splits) =
     (case merge_step chunk_size chunk_overlap separator st d of
        None \<Rightarrow> None
      | Some st' \<Rightarrow> merge_splits_loop chunk_size chunk_overlap separator st' splits)"

definition merge_splits :: "int \<Rightarrow> int \<Rightarrow> string list \<Rightarrow> string \<Rightarrow> string list option" where
  "merge_splits chunk_size chunk_overlap splits separator =
     merge_splits_loop chunk_size chunk_overlap separator ([], [], 0) splits"

text \<open>
  \<open>re.split\<close> on an escaped, non-empty separator: the text between the leftmost,
  non-overlapping occurrences of the separator.
\<close>

function re_split :: "string \<Rightarrow> string \<Rightarrow> string list" where
  "re_split sep [] = [[]]"
| "re_split sep (c # cs) =
     (if sep \<noteq> [] \<and> prefix sep (c # cs)
      then [] # re_split sep (drop (length sep) (c # cs))
      else (case re_split sep cs of
              [] \<Rightarrow> [[c]]
            | p # ps \<Rightarrow> (c # p) # ps))"
  by pat_completeness auto
termination
  by (relation "measure (\<lambda>(sep, text). length text)") (auto simp: neq_Nil_conv)

text \<open>
  \<open>_split_text_with_regex(text, separator, keep_separator=True)\<close>: each separator stays
  at the start of the piece that follows it; the empty separator cuts the text into its
  characters; empty pieces are dropped.
\<close>

definition split_text_with_regex :: "string \<Rightarrow> string \<Rightarrow> string list" where
  "split_text_with_regex text separator =
     filter (\<lambda>s. s \<noteq> [])
       (if separator \<noteq> []
        then (case re_split separator text of
                [] \<Rightarrow> []
              | t # ts \<Rightarrow> t # map (\<lambda>u. separator @ u) ts)
        else map (\<lambda>c. [c]) text)"

text \<open>\<open>re.search\<close> of an escaped separator: does it occur in the text?\<close>

fun re_search :: "string \<Rightarrow> string \<Rightarrow> bool" where
  "re_search sep [] = (sep = [])"
| "re_search sep (c # cs) = (prefix sep (c # cs) \<or> re_search sep cs)"

text \<open>
  The second loop of \<open>RecursiveCharacterTextSplitter._split_text\<close>, over the pieces:
  pieces shorter than the chunk size are collected in \<open>_good_splits\<close> and merged; a
  longer piece is split again with the remaining separators (\<open>recurse\<close>), or kept as it
  is when none remain. The merge separator is \<open>""\<close>, since the separators are kept.
\<close>

definition merge_good :: "int \<Rightarrow> int \<Rightarrow> string list \<Rightarrow> string list option" where
  "merge_good chunk_size chunk_overlap good_splits =
     (if good_splits \<noteq> [] then merge_splits chunk_size chunk_overlap good_splits [] else Some [])"

fun split_pieces ::
  "int \<Rightarrow> int \<Rightarrow> (string \<Rightarrow> string list option) option \<Rightarrow> string list \<Rightarrow> string list
     \<Rightarrow> string list option" where
  "split_pieces chunk_size chunk_overlap recurse good_splits [] =
     merge_good chunk_size chunk_overlap good_splits"
| "split_pieces chunk_size chunk_overlap recurse good_splits (s # splits) =
     (if int (length s) < chunk_size
      then split_pieces chunk_size chunk_overlap recurse (good_splits @ [s]) splits
      else do {
        merged_text \<leftarrow> merge_good chunk_size chunk_overlap good_splits;
        other_info \<leftarrow> (case recurse of None \<Rightarrow> Some [s] | Some r \<Rightarrow> r s);
        final_chunks \<leftarrow> split_pieces chunk_size chunk_overlap recurse [] splits;
        Some (merged_text @ other_info @ final_chunks)
      })"

text \<open>
  \<open>_split_text(text, separators)\<close>. The first loop picks the first separator that is
  empty or occurs in the text, the last one when there is none, and the separators
  after it become \<open>new_separators\<close>; \<open>separators[-1]\<close> of an empty list raises
  \<open>IndexError\<close>.
\<close>

fun split_text_rec :: "int \<Rightarrow> int \<Rightarrow> string list \<Rightarrow> string \<Rightarrow> string list option" where
  "split_text_rec chunk_size chunk_overlap [] text = None"
| "split_text_rec chunk_size chunk_overlap (s # separators) text =
     (if s = [] then
        split_pieces chunk_size chunk_overlap None [] (split_text_with_regex text s)
      else if re_search s text then
        split_pieces chunk_size chunk_overlap
          (if separators = [] then None
           else Some (\<lambda>piece. split_text_rec chunk_size chunk_overlap separators piece))
          [] (split_text_with_regex text s)
      else if separators = [] then
        split_pieces chunk_size chunk_overlap None [] (split_text_with_regex text s)
      else split_text_rec chunk_size chunk_overlap separators text)"

definition default_separators :: "string list" where
  "default_separators = [[CHR 0x0A, CHR 0x0A], [CHR 0x0A], [CHR 0x20], []]"

definition split_text :: "int \<Rightarrow> int \<Rightarrow> string \<Rightarrow> string list option" where
  "split_text chunk_size chunk_overlap text =
     split_text_rec chunk_size chunk_overlap default_separators text"

definition get_text_chunks :: "string \<Rightarrow> error + string list" where
  "get_text_chunks text =
     (case split_text 10000 1000 text of
        None \<Rightarrow> Inl IndexError
      | Some chunks \<Rightarrow> Inr chunks)"

subsection \<open>What a chunking is\<close>

text \<open>
  A span is a pair of positions in a text, its start and its end, and the window of a
  span is the part of the text between them.
\<close>

type_synonym span = "nat \<times> nat"

definition window :: "string \<Rightarrow> span \<Rightarrow> string" where
  "window text sp = take (snd sp - fst sp) (drop (fst sp) text)"

text \<open>
  A list of spans advances with overlap at most \<open>ov\<close> when each span starts and ends
  no earlier than the one before it, and begins at most \<open>ov\<close> positions before the end
  of the one before it.
\<close>

fun advancing :: "int \<Rightarrow> span list \<Rightarrow> bool" where
  "advancing ov [] = True"
| "advancing ov [sp] = True"
| "advancing ov (sp # sq # sps) =
     (fst sp \<le> fst sq \<and> snd sp \<le> snd sq \<and> int (snd sp) \<le> int (fst sq) + ov
      \<and> advancing ov (sq # sps))"

text \<open>A position is covered when it lies in one of the spans.\<close>

definition covered :: "span list \<Rightarrow> nat \<Rightarrow> bool" where
  "covered spans j = list_ex (\<lambda>sp. fst sp \<le> j \<and> j < snd sp) spans"

text \<open>A span is in order: not empty, within the first \<open>n\<close> positions, of bounded size.\<close>

definition span_ok :: "int \<Rightarrow> nat \<Rightarrow> span \<Rightarrow> bool" where
  "span_ok chunk_size n sp \<longleftrightarrow>
     fst sp < snd sp \<and> snd sp \<le> n \<and> int (snd sp - fst sp) \<le> chunk_size"

text \<open>
  \<open>layout\<close>: the chunks are the windows of the spans, every span is a non-empty
  window of the text of at most \<open>chunk_size\<close> characters, the spans advance through
  the text with overlap at most \<open>chunk_overlap\<close>, and every character of the text that
  is not whitespace lies in one of them.
\<close>

definition layout :: "int \<Rightarrow> int \<Rightarrow> string \<Rightarrow> string list \<Rightarrow> span list \<Rightarrow> bool" where
  "layout chunk_size chunk_overlap text chunks spans \<longleftrightarrow>
     chunks = map (window text) spans
     \<and> list_all (span_ok chunk_size (length text)) spans
     \<and> advancing chunk_overlap spans
     \<and> list_all (\<lambda>j. isspace (text ! j) \<or> covered spans j) [0..<length text]"

text \<open>
  For the proofs about \<open>strip\<close>: a blank string, and the numbers of whitespace
  characters at the start and at the end of a string.
\<close>

definition blank :: "string \<Rightarrow> bool" where
  "blank s = list_all isspace s"

definition lead :: "string \<Rightarrow> nat" where
  "lead s = length (takeWhile isspace s)"

definition trail :: "string \<Rightarrow> nat" where
  "trail s = lead (rev s)"

text \<open>
  The invariant of the loop of \<open>_merge_splits\<close>, for the text \<open>pre @ concat current_doc\<close>
  read so far: \<open>total\<close> is the length of the current document and fits the chunk size;
  the documents emitted are the windows of spans that are in order, advance, and cover
  what is not whitespace in \<open>pre\<close>; and the last span starts no later than the current
  document will once stripped, ends at most \<open>chunk_overlap\<close> after the current
  document starts, and ends no later than the current document will once stripped.
\<close>

definition merge_inv ::
  "int \<Rightarrow> int \<Rightarrow> string \<Rightarrow> string \<Rightarrow> string list \<times> string list \<times> int \<Rightarrow> span list \<Rightarrow> bool" where
  "merge_inv chunk_size chunk_overlap text pre st spans \<longleftrightarrow>
     (case st of (docs, current_doc, tot) \<Rightarrow>
        tot = int (length (concat current_doc)) \<and> tot \<le> chunk_size
        \<and> docs = map (window text) spans
        \<and> list_all (span_ok chunk_size (length pre + length (concat current_doc))) spans
        \<and> advancing chunk_overlap spans
        \<and> list_all (\<lambda>j. isspace (text ! j) \<or> covered spans j) [0..<length pre]
        \<and> (spans = [] \<or>
             fst (last spans) \<le> length pre + lead (concat current_doc)
             \<and> int (snd (last spans)) \<le> int (length pre) + chunk_overlap
             \<and> (blank (concat current_doc)
                 \<or> snd (last spans) + trail (concat current_doc)
                      \<le> length pre + length (concat current_doc))))"

subsection \<open>The world outside the script\<close>

text \<open>
  What a run prints to the page (\<open>st.header\<close>, \<open>st.title\<close>, \<open>st.error\<close>,
  \<open>st.success\<close>, \<open>st.write\<close> with its arguments) and what it hands to the logger.
  (The header's text ends with an emoji in the source, left out here.)
\<close>

datatype ui =
    Header string
  | Title string
  | Error string
  | Success string
  | Write "string list"

datatype log_entry = Info string | ErrorLog string

text \<open>
  The calls a run makes to the outside, in order. The two client constructors are the
  only calls that receive the API key.
\<close>

datatype call =
    EmbeddingsClient string
  | ChatClient string
  | FromTexts "string list"
  | SaveLocal string
  | LoadLocal string
  | SimilaritySearch string
  | ChatCompletion string

text \<open>
  \<open>files\<close> is the local storage, from paths to stored indexes: the only state that
  outlives a session. \<open>'idx\<close> is the vector index, an opaque value of the library.
\<close>

record 'idx world =
  files :: "string \<rightharpoonup> 'idx"
  screen :: "ui list"
  logged :: "log_entry list"
  calls :: "call list"

text \<open>
  The library calls and hosted services the script relies on, each a function of what
  the script passes to it (the key is the one its client was built with):
  \<^item> \<open>from_texts key chunks\<close>: \<open>FAISS.from_texts\<close>, which embeds the chunks through
    the hosted embedding API and builds an index;
  \<^item> \<open>load_local stored\<close>: \<open>FAISS.load_local\<close> on what the path holds (\<open>None\<close> when
    it holds nothing);
  \<^item> \<open>similarity_search db key question\<close>: the texts of the nearest chunks;
  \<^item> \<open>chat key prompt\<close>: the hosted chat-completion API; the result is the
    \<open>output_text\<close> entry of the response, if it has one.
  Any of them may raise.
\<close>

record 'idx env =
  from_texts :: "string \<Rightarrow> string list \<Rightarrow> error + 'idx"
  load_local :: "'idx option \<Rightarrow> error + 'idx"
  similarity_search :: "'idx \<Rightarrow> string \<Rightarrow> string \<Rightarrow> error + string list"
  chat :: "string \<Rightarrow> string \<Rightarrow> error + string option"

subsection \<open>Indexing\<close>

definition index_path :: string where
  "index_path = ''faiss_index''"

definition get_vector_store ::
  "'idx env \<Rightarrow> string list \<Rightarrow> string \<Rightarrow> 'idx world \<Rightarrow> error option \<times> 'idx world" where
  "get_vector_store env text_chunks api_key w =
     (let w1 = w\<lparr>calls := calls w @ [EmbeddingsClient api_key, FromTexts text_chunks]\<rparr>
      in case from_texts env api_key text_chunks of
           Inl e \<Rightarrow> (Some e, w1)
         | Inr vector_store \<Rightarrow>
             (None, w1\<lparr>files := (files w1)(index_path \<mapsto> vector_store),
                        calls := calls w1 @ [SaveLocal index_path]\<rparr>))"

subsection \<open>The prompt and the chain\<close>

text \<open>
  The prompt template is a constant of the script. A template is a list of literal
  pieces and variables; \<open>format_prompt\<close> is \<open>str.format\<close> on it, which raises
  (\<open>None\<close>) for a variable without a value.
\<close>

datatype piece = Lit string | Var string

definition prompt_prefix :: string where
  "prompt_prefix =
     ''\<newline>    Answer the question as detailed as possible from the provided context. If the answer is not in\<newline>    the provided context, say, \"answer is not available in the context.\" Do not provide a wrong answer.\<newline>\<newline>\<newline>    Context:\<newline> ''"

definition prompt_middle :: string where
  "prompt_middle = ''\<newline>\<newline>    Question:\<newline> ''"

definition prompt_suffix :: string where
  "prompt_suffix = ''\<newline>\<newline>\<newline>    Answer:\<newline>    ''"

definition prompt_template :: "piece list" where
  "prompt_template =
     [Lit prompt_prefix, Var ''context'', Lit prompt_middle, Var ''question'', Lit prompt_suffix]"

fun input_variables :: "piece list \<Rightarrow> string list" where
  "input_variables [] = []"
| "input_variables (Lit t # ps) = input_variables ps"
| "input_variables (Var v # ps) = v # input_variables ps"

fun format_prompt :: "piece list \<Rightarrow> (string \<rightharpoonup> string) \<Rightarrow> string option" where
  "format_prompt [] vals = Some []"
| "format_prompt (Lit t # ps) vals = map_option (\<lambda>r. t @ r) (format_prompt ps vals)"
| "format_prompt (Var v # ps) vals =
     (case vals v of
        None \<Rightarrow> None
      | Some x \<Rightarrow> map_option (\<lambda>r. x @ r) (format_prompt ps vals))"

text \<open>
  \<open>get_conversational_chain\<close>: a chat client built with the key, and the template.
  The chain of type "stuff" puts the texts of the documents, joined by a blank line,
  in the variable \<open>context\<close>.
\<close>

record chain =
  llm_key :: string
  prompt :: "piece list"

definition get_conversational_chain :: "string \<Rightarrow> chain" where
  "get_conversational_chain api_key = \<lparr>llm_key = api_key, prompt = prompt_template\<rparr>"

definition stuff_documents :: "string list \<Rightarrow> string" where
  "stuff_documents docs = str_join [CHR 0x0A, CHR 0x0A] docs"

definition chain_prompt :: "chain \<Rightarrow> string list \<Rightarrow> string \<Rightarrow> string option" where
  "chain_prompt c docs question =
     format_prompt (prompt c)
       [''context'' \<mapsto> stuff_documents docs, ''question'' \<mapsto> question]"

subsection \<open>Answering a question\<close>

definition missing_index_message :: string where
  "missing_index_message =
     ''Vector store file not found. Please upload and process your PDF files.''"

definition load_error_message :: "string \<Rightarrow> string" where
  "load_error_message e = ''Error loading vector store: '' @ e"

text \<open>\<open>response.get("output_text", "No response generated.")\<close>.\<close>

fun output_text :: "string option \<Rightarrow> string" where
  "output_text None = ''No response generated.''"
| "output_text (Some t) = t"

text \<open>The part of \<open>user_input\<close> after the \<open>try\<close> statement, with the loaded index.\<close>

definition answer ::
  "'idx env \<Rightarrow> 'idx \<Rightarrow> string \<Rightarrow> string \<Rightarrow> 'idx world \<Rightarrow> error option \<times> 'idx world" where
  "answer env new_db user_question api_key w =
     (let w1 = w\<lparr>calls := calls w @ [SimilaritySearch user_question]\<rparr>
      in case similarity_search env new_db api_key user_question of
           Inl e \<Rightarrow> (Some e, w1)
         | Inr docs \<Rightarrow>
             (let c = get_conversational_chain api_key;
                  w2 = w1\<lparr>calls := calls w1 @ [ChatClient (llm_key c)]\<rparr>
              in case chain_prompt c docs user_question of
                   None \<Rightarrow> (Some (OtherError ''KeyError''), w2)
                 | Some p \<Rightarrow>
                     (let w3 = w2\<lparr>calls := calls w2 @ [ChatCompletion p]\<rparr>
                      in case chat env (llm_key c) p of
                           Inl e \<Rightarrow> (Some e, w3)
                         | Inr response \<Rightarrow>
                             (None, w3\<lparr>screen := screen w3
                                         @ [Write [''Reply: '', output_text response]]\<rparr>))))"

text \<open>
  \<open>user_input\<close>: the \<open>try\<close> statement around \<open>FAISS.load_local\<close> catches
  \<open>FileNotFoundError\<close> and \<open>ValueError\<close>, reports and returns; any other exception
  leaves the function.
\<close>

definition user_input ::
  "'idx env \<Rightarrow> string \<Rightarrow> string \<Rightarrow> 'idx world \<Rightarrow> error option \<times> 'idx world" where
  "user_input env user_question api_key w =
     (let w1 = w\<lparr>calls := calls w @ [EmbeddingsClient api_key, LoadLocal index_path],
                  logged := logged w @ [Info ''Loading vector store...'']\<rparr>
      in case load_local env (files w1 index_path) of
           Inl FileNotFoundError \<Rightarrow>
             (None, w1\<lparr>screen := screen w1 @ [Error missing_index_message]\<rparr>)
         | Inl (ValueError e) \<Rightarrow>
             (None, w1\<lparr>screen := screen w1 @ [Error (load_error_message e)],
                        logged := logged w1 @ [ErrorLog (load_error_message e)]\<rparr>)
         | Inl PdfReadError \<Rightarrow> (Some PdfReadError, w1)
         | Inl IndexError \<Rightarrow> (Some IndexError, w1)
         | Inl (OtherError x) \<Rightarrow> (Some (OtherError x), w1)
         | Inr new_db \<Rightarrow>
             answer env new_db user_question api_key
               (w1\<lparr>logged := logged w1 @ [Info ''Vector store loaded successfully.'']\<rparr>))"

subsection \<open>One run of the script\<close>

text \<open>The widgets' values in a run.\<close>

record inputs =
  user_question :: string
  api_key :: string
  pdf_docs :: "pdf list"
  process_button :: bool

text \<open>The body of \<open>with st.spinner("Processing...")\<close>.\<close>

definition process_documents ::
  "'idx env \<Rightarrow> pdf list \<Rightarrow> string \<Rightarrow> 'idx world \<Rightarrow> error option \<times> 'idx world" where
  "process_documents env docs key w =
     (case get_pdf_text docs of
        Inl e \<Rightarrow> (Some e, w)
      | Inr raw_text \<Rightarrow>
          (case get_text_chunks raw_text of
             Inl e \<Rightarrow> (Some e, w)
           | Inr text_chunks \<Rightarrow>
               (case get_vector_store env text_chunks key w of
                  (Some e, w') \<Rightarrow> (Some e, w')
                | (None, w') \<Rightarrow>
                    (None, w'\<lparr>screen := screen w'
                      @ [Success ''Processing complete. You can now ask questions.'']\<rparr>))))"

text \<open>
  The block \<open>with st.sidebar\<close>. A Python string is true when it is not empty, and so
  is the list of uploaded files.
\<close>

definition sidebar :: "'idx env \<Rightarrow> inputs \<Rightarrow> 'idx world \<Rightarrow> error option \<times> 'idx world" where
  "sidebar env inp w =
     (let w2 = w\<lparr>screen := screen w @ [Title ''Menu:'']\<rparr>
      in if process_button inp \<and> api_key inp \<noteq> []
         then (if pdf_docs inp \<noteq> []
               then process_documents env (pdf_docs inp) (api_key inp) w2
               else (None, w2\<lparr>screen := screen w2
                       @ [Error ''Please upload at least one PDF file.'']\<rparr>))
         else (None, w2))"

text \<open>
  The question part of \<open>main\<close>: \<open>user_input\<close> runs when both the question and the key
  are given.
\<close>

definition ask :: "'idx env \<Rightarrow> inputs \<Rightarrow> 'idx world \<Rightarrow> error option \<times> 'idx world" where
  "ask env inp w =
     (let w0 = w\<lparr>screen := screen w @ [Header ''AI Clone Chatbot'']\<rparr>
      in if user_question inp \<noteq> [] \<and> api_key inp \<noteq> []
         then user_input env (user_question inp) (api_key inp) w0
         else (None, w0))"

text \<open>
  \<open>main\<close>: an exception that leaves \<open>user_input\<close> ends the run before the sidebar is
  reached.
\<close>

definition main :: "'idx env \<Rightarrow> inputs \<Rightarrow> 'idx world \<Rightarrow> error option \<times> 'idx world" where
  "main env inp w =
     (case ask env inp w of
        (Some e, w1) \<Rightarrow> (Some e, w1)
      | (None, w1) \<Rightarrow> sidebar env inp w1)"

subsection \<open>Views and sample runs\<close>

text \<open>
  \<open>redact\<close> blanks the key in the two calls that carry it, and two worlds have the same
  view when they agree on the storage, the page, the log and the redacted trace of
  calls: what is left of a run once the key is forgotten.
\<close>

fun redact :: "call \<Rightarrow> call" where
  "redact (EmbeddingsClient k) = EmbeddingsClient []"
| "redact (ChatClient k) = ChatClient []"
| "redact c = c"

definition same_view :: "'idx world \<Rightarrow> 'idx world \<Rightarrow> bool" where
  "same_view w1 w2 \<longleftrightarrow>
     files w1 = files w2 \<and> screen w1 = screen w2 \<and> logged w1 = logged w2
     \<and> map redact (calls w1) = map redact (calls w2)"

text \<open>
  Concrete environments, worlds and inputs, on which the model is run: an environment
  whose services all fail and whose loader rejects any stored index, one whose services
  answer (the index is the list of chunks, the search returns its first four, the chat
  model answers \<open>42\<close>), an empty world, two worlds with a stored index, and two sets of
  widget values.

  \<open>faiss_env\<close> answers like \<open>echo_env\<close>, but its loader treats a path that holds
  nothing as the faiss library does: \<open>FAISS.load_local\<close> begins with
  \<open>faiss.read_index\<close>, which raises \<open>RuntimeError\<close> when the index file cannot be
  opened.
\<close>

definition offline_env :: "string list env" where
  "offline_env =
     \<lparr>from_texts = (\<lambda>key chunks. Inl (OtherError ''offline'')),
      load_local = (\<lambda>stored. case stored of None \<Rightarrow> Inl FileNotFoundError
                               | Some db \<Rightarrow> Inl (ValueError ''unsupported pickle protocol'')),
      similarity_search = (\<lambda>db key question. Inl (OtherError ''offline'')),
      chat = (\<lambda>key p. Inl (OtherError ''offline''))\<rparr>"

definition echo_env :: "string list env" where
  "echo_env =
     \<lparr>from_texts = (\<lambda>key chunks. Inr chunks),
      load_local = (\<lambda>stored. case stored of None \<Rightarrow> Inl FileNotFoundError
                               | Some db \<Rightarrow> Inr db),
      similarity_search = (\<lambda>db key question. Inr (take 4 db)),
      chat = (\<lambda>key p. Inr (Some ''42''))\<rparr>"

definition faiss_env :: "string list env" where
  "faiss_env =
     \<lparr>from_texts = (\<lambda>key chunks. Inr chunks),
      load_local = (\<lambda>stored. case stored of
                       None \<Rightarrow> Inl (OtherError ''RuntimeError'')
                     | Some db \<Rightarrow> Inr db),
      similarity_search = (\<lambda>db key question. Inr (take 4 db)),
      chat = (\<lambda>key p. Inr (Some ''42''))\<rparr>"

definition new_world :: "string list world" where
  "new_world = \<lparr>files = Map.empty, screen = [], logged = [], calls = []\<rparr>"


definition indexed_world :: "string list world" where
  "indexed_world = new_world\<lparr>files := [index_path \<mapsto> [''alpha'', ''beta'']]\<rparr>"

definition demo_inputs :: inputs where
  "demo_inputs =
     \<lparr>user_question = ''why?'', api_key = ''key-one'',
      pdf_docs = [Pdf [Some ''hello'', None]], process_button = True\<rparr>"

definition idle_inputs :: inputs where
  "idle_inputs = \<lparr>user_question = [], api_key = [], pdf_docs = [], process_button = True\<rparr>"


section \<open>Text extraction\<close>

lemma extract_pages_eq: "extract_pages acc pages = acc @ concat (map page_text pages)"
  by (induction pages arbitrary: acc) simp_all

lemma get_pdf_text_loop_readable:
  "get_pdf_text_loop acc (map Pdf pss) = Inr (acc @ concat (map page_text (concat pss)))"
  by (induction pss arbitrary: acc) (simp_all add: extract_pages_eq)

lemma get_pdf_text_loop_unreadable:
  "Unreadable \<in> set docs \<Longrightarrow> get_pdf_text_loop acc docs = Inl PdfReadError"
proof (induction docs arbitrary: acc)
  case Nil
  then show ?case by simp
next
  case (Cons d docs)
  then show ?case by (cases d) auto
qed

text \<open>
  Claim C5, as stated: for every list of uploaded documents the operation returns the
  concatenated text. It fails on a list with a file that the reader cannot open: the
  text of the first document is lost with the exception, and nothing is returned.
\<close>

theorem get_pdf_text_raises_counterexample:
  "get_pdf_text [Pdf [Some ''abc''], Unreadable] = Inl PdfReadError
   \<and> get_pdf_text [Pdf [Some ''abc''], Unreadable] \<noteq> Inr ''abc''"
  by (simp add: get_pdf_text_def)

lemma readable_docs: "Unreadable \<notin> set docs \<Longrightarrow> \<exists>pss. docs = map Pdf pss"
proof (induction docs)
  case Nil
  then show ?case by simp
next
  case (Cons d docs)
  then obtain pss where "docs = map Pdf pss" by auto
  moreover from Cons.prems obtain ps where "d = Pdf ps" by (cases d) auto
  ultimately have "d # docs = map Pdf (ps # pss)" by simp
  then show ?case by (rule exI)
qed

lemma concat_page_text:
  "concat (map page_text ps) = concat (map (\<lambda>p. case p of None \<Rightarrow> [] | Some t \<Rightarrow> t) ps)"
proof -
  have "page_text = (\<lambda>p. case p of None \<Rightarrow> [] | Some t \<Rightarrow> t)"
    by (rule ext) (simp split: option.splits)
  then show ?thesis by simp
qed

text \<open>
  Claim C5, amended. For every list of documents that the reader opens (every list
  without an unreadable file is one), the extracted text is the concatenation of the
  text of every page of every document, in document order, then page order, a page
  without text contributing nothing. The result is one string, which keeps no trace of
  where a document ends: the pages of all documents put into one document give the
  same string. A list with a file that the reader cannot open makes the operation
  raise the reader's exception instead.
\<close>

theorem get_pdf_text_concatenates:
  "get_pdf_text (map Pdf pss)
     = Inr (concat (map (\<lambda>p. case p of None \<Rightarrow> [] | Some t \<Rightarrow> t) (concat pss)))
   \<and> get_pdf_text (map Pdf pss) = get_pdf_text [Pdf (concat pss)]
   \<and> (Unreadable \<notin> set docs \<longrightarrow> (\<exists>pss. docs = map Pdf pss))
   \<and> (Unreadable \<in> set docs \<longrightarrow> get_pdf_text docs = Inl PdfReadError)"
proof -
  have a: "get_pdf_text (map Pdf pss)
     = Inr (concat (map (\<lambda>p. case p of None \<Rightarrow> [] | Some t \<Rightarrow> t) (concat pss)))"
    by (simp add: get_pdf_text_def get_pdf_text_loop_readable concat_page_text)
  have b: "get_pdf_text (map Pdf pss) = get_pdf_text [Pdf (concat pss)]"
    using get_pdf_text_loop_readable [of "[]" "[concat pss]"]
    by (simp add: get_pdf_text_def get_pdf_text_loop_readable)
  from a b readable_docs [of docs] get_pdf_text_loop_unreadable [of docs "[]"]
  show ?thesis by (simp add: get_pdf_text_def)
qed

theorem get_pdf_text_concatenates_witness:
  "get_pdf_text [Pdf [Some ''ab'', None], Pdf [], Pdf [Some ''c'', Some ''de'']] = Inr ''abcde''
   \<and> get_pdf_text [Pdf [Some ''ab'', None, Some ''c'', Some ''de'']] = Inr ''abcde''
   \<and> get_pdf_text [Pdf [Some ''ab''], Unreadable, Pdf [Some ''c'']] = Inl PdfReadError"
proof -
  note t = get_pdf_text_concatenates
             [of "[[Some ''ab'', None], [], [Some ''c'', Some ''de'']]"
                 "[Pdf [Some ''ab''], Unreadable, Pdf [Some ''c'']]"]
  have a: "get_pdf_text [Pdf [Some ''ab'', None], Pdf [], Pdf [Some ''c'', Some ''de'']]
             = Inr ''abcde''"
    using t [THEN conjunct1] by simp
  have b: "get_pdf_text [Pdf [Some ''ab'', None], Pdf [], Pdf [Some ''c'', Some ''de'']]
             = get_pdf_text [Pdf [Some ''ab'', None, Some ''c'', Some ''de'']]"
    using t [THEN conjunct2, THEN conjunct1] by simp
  have c: "get_pdf_text [Pdf [Some ''ab''], Unreadable, Pdf [Some ''c'']] = Inl PdfReadError"
    using t [THEN conjunct2, THEN conjunct2, THEN conjunct2] by simp
  from a b c show ?thesis by simp
qed

text \<open>
  Claim C3, as stated: extraction never raises, and an unreadable document gives the
  empty string. It fails on a single file that the reader cannot open: the constructor
  raises and nothing in \<open>get_pdf_text\<close> catches it.
\<close>

theorem get_pdf_text_unreadable_counterexample:
  "get_pdf_text [Unreadable] = Inl PdfReadError \<and> get_pdf_text [Unreadable] \<noteq> Inr []"
  by (simp add: get_pdf_text_def)

text \<open>
  Claim C3, amended. For every list of documents that the reader opens, including
  documents whose pages have no text, extraction returns a string; when no page has
  any text, that string is empty. A list with a document that the reader cannot open
  makes extraction raise the reader's exception.
\<close>

theorem get_pdf_text_tolerant:
  "(\<exists>t. get_pdf_text (map Pdf pss) = Inr t)
   \<and> ((\<forall>p \<in> set (concat pss). page_text p = []) \<longrightarrow> get_pdf_text (map Pdf pss) = Inr [])
   \<and> (Unreadable \<in> set docs \<longrightarrow> get_pdf_text docs = Inl PdfReadError)"
  by (simp add: get_pdf_text_def get_pdf_text_loop_readable get_pdf_text_loop_unreadable)

theorem get_pdf_text_tolerant_witness:
  "get_pdf_text (map Pdf [[None, Some []], [], [None]]) = Inr []
   \<and> Unreadable \<in> set [Pdf [Some ''a''], Unreadable]
   \<and> get_pdf_text [Pdf [Some ''a''], Unreadable] = Inl PdfReadError"
  using get_pdf_text_tolerant [of "[[None, Some []], [], [None]]" "[Pdf [Some ''a''], Unreadable]"]
  by simp

section \<open>Indexing\<close>



section \<open>Answering\<close>

text \<open>
  What the handler for \<open>FileNotFoundError\<close> does when it is reached: it shows the
  missing-index message and returns, after the construction of the embeddings client
  and the attempt to load, and before any search or chat completion.
\<close>

lemma user_input_file_not_found:
  assumes "files w index_path = None"
    and "load_local env None = Inl FileNotFoundError"
  shows "user_input env question key w =
           (None, w\<lparr>calls := calls w @ [EmbeddingsClient key, LoadLocal index_path],
                     logged := logged w @ [Info ''Loading vector store...''],
                     screen := screen w @ [Error missing_index_message]\<rparr>)"
  using assms by (simp add: user_input_def)

text \<open>
  Claim C2. A query issued when the path of the index holds nothing should show the
  missing-index message and return without an answer. The handler is reached only for
  \<open>FileNotFoundError\<close>; for the absent index the library raises \<open>RuntimeError\<close>, which
  neither handler of \<open>user_input\<close> catches: the exception leaves the function and
  nothing is shown on the page. (No search and no chat completion happens in either
  case.)
\<close>

theorem user_input_missing_index_escapes:
  "files new_world index_path = None
   \<and> user_input faiss_env ''what?'' ''k'' new_world =
       (Some (OtherError ''RuntimeError''),
        new_world\<lparr>calls := [EmbeddingsClient ''k'', LoadLocal index_path],
                  logged := [Info ''Loading vector store...'']\<rparr>)
   \<and> screen (snd (user_input faiss_env ''what?'' ''k'' new_world)) = []"
  by (simp add: user_input_def faiss_env_def new_world_def)



lemma chain_prompt_eq:
  "chain_prompt (get_conversational_chain key) docs question =
     Some (prompt_prefix @ stuff_documents docs @ prompt_middle @ question @ prompt_suffix)"
  by (simp add: chain_prompt_def get_conversational_chain_def prompt_template_def)

text \<open>
  Claim C7. When the index loads, the search returns and the chat model answers, the
  prompt sent to the chat-completion API is the constant template with the retrieved
  chunks (joined by blank lines) in place of \<open>context\<close> and the user's question in place
  of \<open>question\<close>, its only two variables, and the text of the response is written to
  the page after \<open>Reply:\<close>.
\<close>

theorem user_input_prompt:
  assumes "load_local env (files w index_path) = Inr db"
    and "similarity_search env db key question = Inr docs"
    and "chat env key
           (prompt_prefix @ stuff_documents docs @ prompt_middle @ question @ prompt_suffix)
         = Inr response"
  shows "user_input env question key w =
           (None, w\<lparr>calls := calls w @
                       [EmbeddingsClient key, LoadLocal index_path, SimilaritySearch question,
                        ChatClient key,
                        ChatCompletion (prompt_prefix @ stuff_documents docs @ prompt_middle
                                          @ question @ prompt_suffix)],
                     logged := logged w @ [Info ''Loading vector store...'',
                                           Info ''Vector store loaded successfully.''],
                     screen := screen w @ [Write [''Reply: '', output_text response]]\<rparr>)
         \<and> input_variables (prompt (get_conversational_chain key)) = [''context'', ''question'']"
  using assms
  by (simp add: user_input_def answer_def chain_prompt_eq)
     (simp add: get_conversational_chain_def prompt_template_def)

theorem user_input_prompt_witness:
  "load_local echo_env (files indexed_world index_path) = Inr [''alpha'', ''beta'']
   \<and> similarity_search echo_env [''alpha'', ''beta''] ''k'' ''why?'' = Inr [''alpha'', ''beta'']
   \<and> chat echo_env ''k''
        (prompt_prefix @ stuff_documents [''alpha'', ''beta''] @ prompt_middle @ ''why?''
           @ prompt_suffix) = Inr (Some ''42'')
   \<and> calls (snd (user_input echo_env ''why?'' ''k'' indexed_world)) =
        [EmbeddingsClient ''k'', LoadLocal index_path, SimilaritySearch ''why?'',
         ChatClient ''k'',
         ChatCompletion (prompt_prefix @ ''alpha\<newline>\<newline>beta'' @ prompt_middle @ ''why?''
                           @ prompt_suffix)]
   \<and> screen (snd (user_input echo_env ''why?'' ''k'' indexed_world)) = [Write [''Reply: '', ''42'']]"
proof -
  have a: "load_local echo_env (files indexed_world index_path) = Inr [''alpha'', ''beta'']"
    by (simp add: echo_env_def indexed_world_def new_world_def)
  have b: "similarity_search echo_env [''alpha'', ''beta''] ''k'' ''why?''
             = Inr [''alpha'', ''beta'']"
    by (simp add: echo_env_def)
  have c: "chat echo_env ''k''
        (prompt_prefix @ stuff_documents [''alpha'', ''beta''] @ prompt_middle @ ''why?''
           @ prompt_suffix) = Inr (Some ''42'')"
    by (simp add: echo_env_def)
  from user_input_prompt [OF a b c] a b c show ?thesis
    by (simp add: indexed_world_def new_world_def stuff_documents_def)
qed

section \<open>The API key\<close>

lemma user_input_files: "files (snd (user_input env question key w)) = files w"
  by (simp add: user_input_def answer_def Let_def split: sum.splits error.splits option.splits)

lemma llm_key_chain [simp]: "llm_key (get_conversational_chain key) = key"
  by (simp add: get_conversational_chain_def)

lemma answer_view:
  assumes "same_view w1 w2"
    and "similarity_search env db k1 q = similarity_search env db k2 q"
    and "\<And>p. chat env k1 p = chat env k2 p"
  shows "fst (answer env db q k1 w1) = fst (answer env db q k2 w2)
         \<and> same_view (snd (answer env db q k1 w1)) (snd (answer env db q k2 w2))"
proof (cases "similarity_search env db k2 q")
  case (Inl e)
  with assms show ?thesis by (simp add: answer_def same_view_def)
next
  case (Inr docs)
  show ?thesis
  proof (cases "chat env k2
      (prompt_prefix @ stuff_documents docs @ prompt_middle @ q @ prompt_suffix)")
    case (Inl e)
    with Inr assms show ?thesis by (simp add: answer_def same_view_def chain_prompt_eq)
  next
    case r: (Inr response)
    with Inr assms show ?thesis by (simp add: answer_def same_view_def chain_prompt_eq)
  qed
qed

lemma user_input_view:
  assumes "same_view w1 w2"
    and "\<And>db. similarity_search env db k1 q = similarity_search env db k2 q"
    and "\<And>p. chat env k1 p = chat env k2 p"
  shows "fst (user_input env q k1 w1) = fst (user_input env q k2 w2)
         \<and> same_view (snd (user_input env q k1 w1)) (snd (user_input env q k2 w2))"
proof (cases "load_local env (files w2 index_path)")
  case (Inl e)
  with assms(1) show ?thesis
    by (cases e) (simp_all add: user_input_def same_view_def)
next
  case (Inr db)
  have "same_view
          (w1\<lparr>calls := calls w1 @ [EmbeddingsClient k1, LoadLocal index_path],
               logged := logged w1 @ [Info ''Loading vector store...'',
                                       Info ''Vector store loaded successfully.'']\<rparr>)
          (w2\<lparr>calls := calls w2 @ [EmbeddingsClient k2, LoadLocal index_path],
               logged := logged w2 @ [Info ''Loading vector store...'',
                                       Info ''Vector store loaded successfully.'']\<rparr>)"
    using assms(1) by (simp add: same_view_def)
  from answer_view [OF this assms(2) assms(3), of db] Inr assms(1) show ?thesis
    by (simp add: user_input_def same_view_def)
qed

lemma get_vector_store_view:
  assumes "same_view w1 w2"
    and "from_texts env k1 chunks = from_texts env k2 chunks"
  shows "fst (get_vector_store env chunks k1 w1) = fst (get_vector_store env chunks k2 w2)
         \<and> same_view (snd (get_vector_store env chunks k1 w1))
                      (snd (get_vector_store env chunks k2 w2))"
  using assms
  by (cases "from_texts env k2 chunks") (simp_all add: get_vector_store_def same_view_def)

lemma process_documents_view:
  assumes "same_view w1 w2"
    and "\<And>chunks. from_texts env k1 chunks = from_texts env k2 chunks"
  shows "fst (process_documents env docs k1 w1) = fst (process_documents env docs k2 w2)
         \<and> same_view (snd (process_documents env docs k1 w1))
                      (snd (process_documents env docs k2 w2))"
proof (cases "get_pdf_text docs")
  case (Inl e)
  with assms(1) show ?thesis by (simp add: process_documents_def)
next
  case (Inr raw)
  show ?thesis
  proof (cases "get_text_chunks raw")
    case (Inl e)
    with Inr assms(1) show ?thesis by (simp add: process_documents_def)
  next
    case c: (Inr chunks)
    obtain r1 v1 where g1: "get_vector_store env chunks k1 w1 = (r1, v1)" by force
    obtain r2 v2 where g2: "get_vector_store env chunks k2 w2 = (r2, v2)" by force
    from get_vector_store_view [OF assms(1) assms(2), of chunks] g1 g2
    have "r1 = r2" and "same_view v1 v2" by simp_all
    with Inr c g1 g2 show ?thesis
      by (cases r2) (simp_all add: process_documents_def same_view_def)
  qed
qed

lemma sidebar_view:
  assumes "same_view w1 w2" and "k1 \<noteq> []" and "k2 \<noteq> []"
    and "\<And>chunks. from_texts env k1 chunks = from_texts env k2 chunks"
  shows "fst (sidebar env (inp\<lparr>api_key := k1\<rparr>) w1) = fst (sidebar env (inp\<lparr>api_key := k2\<rparr>) w2)
         \<and> same_view (snd (sidebar env (inp\<lparr>api_key := k1\<rparr>) w1))
                      (snd (sidebar env (inp\<lparr>api_key := k2\<rparr>) w2))"
proof -
  have svt: "same_view (w1\<lparr>screen := screen w1 @ [Title ''Menu:'']\<rparr>)
                       (w2\<lparr>screen := screen w2 @ [Title ''Menu:'']\<rparr>)"
    using assms(1) by (simp add: same_view_def)
  from process_documents_view [OF svt assms(4), of "pdf_docs inp"] svt assms(2,3)
  show ?thesis by (simp add: sidebar_def Let_def same_view_def)
qed

lemma ask_view:
  assumes "k1 \<noteq> []" and "k2 \<noteq> []"
    and "\<And>db q. similarity_search env db k1 q = similarity_search env db k2 q"
    and "\<And>p. chat env k1 p = chat env k2 p"
  shows "fst (ask env (inp\<lparr>api_key := k1\<rparr>) w) = fst (ask env (inp\<lparr>api_key := k2\<rparr>) w)
         \<and> same_view (snd (ask env (inp\<lparr>api_key := k1\<rparr>) w))
                      (snd (ask env (inp\<lparr>api_key := k2\<rparr>) w))"
proof -
  let ?w0 = "w\<lparr>screen := screen w @ [Header ''AI Clone Chatbot'']\<rparr>"
  have sv0: "same_view ?w0 ?w0" by (simp add: same_view_def)
  from user_input_view [OF sv0 assms(3) assms(4), of "user_question inp"] sv0 assms(1,2)
  show ?thesis by (simp add: ask_def Let_def)
qed

lemma main_view:
  assumes "k1 \<noteq> []" and "k2 \<noteq> []"
    and "\<And>chunks. from_texts env k1 chunks = from_texts env k2 chunks"
    and "\<And>db q. similarity_search env db k1 q = similarity_search env db k2 q"
    and "\<And>p. chat env k1 p = chat env k2 p"
  shows "fst (main env (inp\<lparr>api_key := k1\<rparr>) w) = fst (main env (inp\<lparr>api_key := k2\<rparr>) w)
         \<and> same_view (snd (main env (inp\<lparr>api_key := k1\<rparr>) w))
                      (snd (main env (inp\<lparr>api_key := k2\<rparr>) w))"
proof -
  obtain r1 v1 where p1: "ask env (inp\<lparr>api_key := k1\<rparr>) w = (r1, v1)" by force
  obtain r2 v2 where p2: "ask env (inp\<lparr>api_key := k2\<rparr>) w = (r2, v2)" by force
  from ask_view [OF assms(1,2,4,5), of inp w] p1 p2
  have r: "r1 = r2" and v: "same_view v1 v2" by simp_all
  show ?thesis
  proof (cases r2)
    case (Some e)
    with r v p1 p2 show ?thesis by (simp add: main_def)
  next
    case None
    with r p1 p2 sidebar_view [OF v assms(1,2,3), of inp]
    show ?thesis by (simp add: main_def)
  qed
qed

text \<open>
  Claim C8. Take two non-empty keys for which the hosted services answer alike. Two
  runs of the script that differ only in the key end alike, leave the same storage, the
  same log and the same page, and make the same calls but for the key handed to the
  two client constructors: the key reaches the clients and nothing else, and the
  stored index does not depend on it. A query never changes the storage.
\<close>

theorem api_key_not_persisted:
  assumes "k1 \<noteq> []" and "k2 \<noteq> []"
    and "\<forall>chunks. from_texts env k1 chunks = from_texts env k2 chunks"
    and "\<forall>db q. similarity_search env db k1 q = similarity_search env db k2 q"
    and "\<forall>p. chat env k1 p = chat env k2 p"
  shows "fst (main env (inp\<lparr>api_key := k1\<rparr>) w) = fst (main env (inp\<lparr>api_key := k2\<rparr>) w)
         \<and> files (snd (main env (inp\<lparr>api_key := k1\<rparr>) w))
             = files (snd (main env (inp\<lparr>api_key := k2\<rparr>) w))
         \<and> logged (snd (main env (inp\<lparr>api_key := k1\<rparr>) w))
             = logged (snd (main env (inp\<lparr>api_key := k2\<rparr>) w))
         \<and> screen (snd (main env (inp\<lparr>api_key := k1\<rparr>) w))
             = screen (snd (main env (inp\<lparr>api_key := k2\<rparr>) w))
         \<and> map redact (calls (snd (main env (inp\<lparr>api_key := k1\<rparr>) w)))
             = map redact (calls (snd (main env (inp\<lparr>api_key := k2\<rparr>) w)))
         \<and> files (snd (user_input env question k1 w)) = files w"
proof -
  from main_view [of k1 k2 env inp w] assms
  have "fst (main env (inp\<lparr>api_key := k1\<rparr>) w) = fst (main env (inp\<lparr>api_key := k2\<rparr>) w)
         \<and> same_view (snd (main env (inp\<lparr>api_key := k1\<rparr>) w))
                      (snd (main env (inp\<lparr>api_key := k2\<rparr>) w))"
    by simp
  then show ?thesis by (simp add: same_view_def user_input_files)
qed

theorem api_key_not_persisted_witness:
  "''key-one'' \<noteq> [] \<and> ''key-two'' \<noteq> []
   \<and> files (snd (main echo_env (demo_inputs\<lparr>api_key := ''key-one''\<rparr>) new_world))
       = files (snd (main echo_env (demo_inputs\<lparr>api_key := ''key-two''\<rparr>) new_world))
   \<and> files (snd (user_input echo_env ''why?'' ''key-one'' new_world)) = files new_world"
proof -
  have a: "''key-one'' \<noteq> []" and b: "''key-two'' \<noteq> []" by simp_all
  have c: "\<forall>chunks. from_texts echo_env ''key-one'' chunks
                     = from_texts echo_env ''key-two'' chunks"
    by (simp add: echo_env_def)
  have d: "\<forall>db q. similarity_search echo_env db ''key-one'' q
               = similarity_search echo_env db ''key-two'' q"
    by (simp add: echo_env_def)
  have e: "\<forall>p. chat echo_env ''key-one'' p = chat echo_env ''key-two'' p"
    by (simp add: echo_env_def)
  from api_key_not_persisted [OF a b c d e, of demo_inputs new_world "''why?''"]
  show ?thesis by simp
qed

section \<open>Runs of the script\<close>

text \<open>
  Claim C10, as stated: whenever processing cannot run, the message asking for a file
  is shown. With an empty key, no file and the button pressed, the run shows the header
  and the menu title only.
\<close>

theorem main_no_key_counterexample:
  "api_key idle_inputs = [] \<and> pdf_docs idle_inputs = [] \<and> process_button idle_inputs
   \<and> main offline_env idle_inputs new_world =
       (None, new_world\<lparr>screen := [Header ''AI Clone Chatbot'', Title ''Menu:'']\<rparr>)
   \<and> Error ''Please upload at least one PDF file.''
        \<notin> set (screen (snd (main offline_env idle_inputs new_world)))"
  by (simp add: main_def ask_def sidebar_def idle_inputs_def new_world_def)

text \<open>
  Claim C10, amended. With an empty key a run prints the header and the menu title and
  does nothing else, so neither pipeline runs with an empty key. The query pipeline
  runs exactly when the question and the key are both non-empty, and when it raises,
  the run ends there, with no processing and no message. Otherwise, with a non-empty
  key: when the button is pressed and at least one file is uploaded, the processing
  pipeline runs with that key; when the button is pressed and no file is uploaded, the
  message asking for a file is shown and nothing is processed; when the button is not
  pressed, nothing is shown and nothing is processed.
\<close>

theorem main_guards:
  "(api_key inp = [] \<longrightarrow>
      main env inp w =
        (None, w\<lparr>screen := screen w @ [Header ''AI Clone Chatbot'', Title ''Menu:'']\<rparr>))
   \<and> (api_key inp \<noteq> [] \<and> user_question inp \<noteq> []
        \<and> user_input env (user_question inp) (api_key inp)
             (w\<lparr>screen := screen w @ [Header ''AI Clone Chatbot'']\<rparr>) = (Some e, w1) \<longrightarrow>
      main env inp w = (Some e, w1))
   \<and> (api_key inp \<noteq> []
        \<and> (user_question inp = [] \<and> w1 = w\<lparr>screen := screen w @ [Header ''AI Clone Chatbot'']\<rparr>
            \<or> user_question inp \<noteq> []
               \<and> user_input env (user_question inp) (api_key inp)
                    (w\<lparr>screen := screen w @ [Header ''AI Clone Chatbot'']\<rparr>) = (None, w1)) \<longrightarrow>
      main env inp w =
        (if process_button inp
         then (if pdf_docs inp \<noteq> []
               then process_documents env (pdf_docs inp) (api_key inp)
                      (w1\<lparr>screen := screen w1 @ [Title ''Menu:'']\<rparr>)
               else (None, w1\<lparr>screen := screen w1 @ [Title ''Menu:'',
                                   Error ''Please upload at least one PDF file.'']\<rparr>))
         else (None, w1\<lparr>screen := screen w1 @ [Title ''Menu:'']\<rparr>)))"
  by (auto simp: main_def ask_def sidebar_def Let_def)

theorem main_guards_witness:
  "main offline_env idle_inputs new_world =
       (None, new_world\<lparr>screen := [Header ''AI Clone Chatbot'', Title ''Menu:'']\<rparr>)
   \<and> main faiss_env (idle_inputs\<lparr>api_key := ''k'', user_question := ''what?''\<rparr>) new_world =
       (Some (OtherError ''RuntimeError''),
        new_world\<lparr>screen := [Header ''AI Clone Chatbot''],
                  calls := [EmbeddingsClient ''k'', LoadLocal index_path],
                  logged := [Info ''Loading vector store...'']\<rparr>)
   \<and> main offline_env (idle_inputs\<lparr>api_key := ''k''\<rparr>) new_world =
       (None, new_world\<lparr>screen := [Header ''AI Clone Chatbot'', Title ''Menu:'',
                                       Error ''Please upload at least one PDF file.'']\<rparr>)"
proof -
  have u: "user_input faiss_env ''what?'' ''k''
             (new_world\<lparr>screen := screen new_world @ [Header ''AI Clone Chatbot'']\<rparr>)
           = (Some (OtherError ''RuntimeError''),
              new_world\<lparr>screen := [Header ''AI Clone Chatbot''],
                  calls := [EmbeddingsClient ''k'', LoadLocal index_path],
                  logged := [Info ''Loading vector store...'']\<rparr>)"
    by (simp add: user_input_def faiss_env_def new_world_def)
  from main_guards [of idle_inputs offline_env new_world]
    main_guards [of "idle_inputs\<lparr>api_key := ''k'', user_question := ''what?''\<rparr>" faiss_env
                    new_world "OtherError ''RuntimeError''"
                    "new_world\<lparr>screen := [Header ''AI Clone Chatbot''],
                  calls := [EmbeddingsClient ''k'', LoadLocal index_path],
                  logged := [Info ''Loading vector store...'']\<rparr>"] u
    main_guards [of "idle_inputs\<lparr>api_key := ''k''\<rparr>" offline_env new_world _
                    "new_world\<lparr>screen := screen new_world @ [Header ''AI Clone Chatbot'']\<rparr>"]
  show ?thesis by (simp add: idle_inputs_def new_world_def)
qed

section \<open>Chunking\<close>

subsection \<open>The loops of the splitter\<close>

lemma pop_overlap_ok:
  assumes "0 \<le> ov" and "tot = int (length (concat cur))"
  shows "\<exists>cur' tot'. pop_overlap cs ov 0 len cur tot = Some (cur', tot')
           \<and> suffix cur' cur \<and> tot' = int (length (concat cur'))
           \<and> tot' \<le> ov \<and> (tot' + len \<le> cs \<or> tot' \<le> 0)"
  using assms
proof (induction cur arbitrary: tot)
  case Nil
  then show ?case by simp
next
  case (Cons d ds)
  show ?case
  proof (cases "tot > ov \<or> (tot + len + 0 > cs \<and> tot > 0)")
    case True
    have t: "tot - (int (length d) + (if length (d # ds) > 1 then 0 else 0))
               = int (length (concat ds))"
      using Cons.prems(2) by simp
    from Cons.IH [OF Cons.prems(1) t]
    obtain cur' tot' where
      "pop_overlap cs ov 0 len ds
         (tot - (int (length d) + (if length (d # ds) > 1 then 0 else 0))) = Some (cur', tot')"
      "suffix cur' ds" "tot' = int (length (concat cur'))" "tot' \<le> ov"
      "tot' + len \<le> cs \<or> tot' \<le> 0"
      by blast
    with True show ?thesis by (auto intro: suffix_ConsI)
  next
    case False
    then have p: "pop_overlap cs ov 0 len (d # ds) tot = Some (d # ds, tot)" by auto
    from False have b: "tot \<le> ov" and c: "tot + len \<le> cs \<or> tot \<le> 0" by arith+
    have "suffix (d # ds) (d # ds)" by simp
    with p b c Cons.prems(2) show ?thesis by blast
  qed
qed

lemma concat_filter_nonempty: "concat (filter (\<lambda>s. s \<noteq> []) xs) = concat xs"
  by (induction xs) simp_all

lemma re_split_concat:
  "\<exists>t ts. re_split sep str = t # ts \<and> t @ concat (map (\<lambda>u. sep @ u) ts) = str"
proof (induction sep str rule: re_split.induct)
  case (1 sep)
  then show ?case by simp
next
  case (2 sep c cs)
  show ?case
  proof (cases "sep \<noteq> [] \<and> prefix sep (c # cs)")
    case True
    from 2(1) [OF True] obtain t ts where
      r: "re_split sep (drop (length sep) (c # cs)) = t # ts"
      and e: "t @ concat (map (\<lambda>u. sep @ u) ts) = drop (length sep) (c # cs)"
      by blast
    from True obtain zs where z: "c # cs = sep @ zs" by (auto simp: prefix_def)
    then have "drop (length sep) (c # cs) = zs" by simp
    with e z have "sep @ t @ concat (map (\<lambda>u. sep @ u) ts) = c # cs" by simp
    with True r show ?thesis by simp
  next
    case False
    from 2(2) [OF False] obtain t ts where
      r: "re_split sep cs = t # ts" and e: "t @ concat (map (\<lambda>u. sep @ u) ts) = cs"
      by blast
    with False show ?thesis by auto
  qed
qed

lemma split_text_with_regex_concat: "concat (split_text_with_regex str sep) = str"
proof (cases "sep = []")
  case True
  have "concat (map (\<lambda>c. [c]) str) = str" by (induction str) simp_all
  with True show ?thesis by (simp add: split_text_with_regex_def concat_filter_nonempty)
next
  case False
  from re_split_concat [of sep str] obtain t ts where
    "re_split sep str = t # ts" "t @ concat (map (\<lambda>u. sep @ u) ts) = str"
    by blast
  with False show ?thesis
    by (simp add: split_text_with_regex_def concat_filter_nonempty del: filter.simps)
qed

lemma split_text_with_regex_chars:
  "\<forall>s \<in> set (split_text_with_regex str []). length s = 1"
  by (auto simp: split_text_with_regex_def)

subsection \<open>Whitespace, windows and spans\<close>

lemma blank_iff: "blank s \<longleftrightarrow> (\<forall>c \<in> set s. isspace c)"
  by (simp add: blank_def list_all_iff)

lemma blank_append [simp]: "blank (a @ b) \<longleftrightarrow> blank a \<and> blank b"
  by (auto simp: blank_iff)

lemma blank_rev [simp]: "blank (rev s) = blank s"
  by (simp add: blank_iff)

lemma lead_le: "lead s \<le> length s"
  by (simp add: lead_def length_takeWhile_le)

lemma trail_le: "trail s \<le> length s"
  using lead_le [of "rev s"] by (simp add: trail_def)

lemma lead_blank: "blank s \<Longrightarrow> lead s = length s"
proof -
  assume "blank s"
  then have t: "takeWhile isspace s = s" by (simp add: blank_iff)
  show ?thesis unfolding lead_def t by (rule refl)
qed

lemma lead_append_blank: "blank a \<Longrightarrow> lead (a @ b) = length a + lead b"
  by (simp add: lead_def blank_iff takeWhile_append2)

lemma lead_append_nonblank: "\<not> blank a \<Longrightarrow> lead (a @ b) = lead a"
  by (auto simp: lead_def blank_iff takeWhile_append1)

lemma lead_append_le: "lead (p @ x) \<le> length p + lead (x @ y)"
proof (cases "blank p")
  case True
  have "lead x \<le> lead (x @ y)"
    by (cases "blank x") (simp_all add: lead_append_blank lead_blank lead_append_nonblank)
  with True show ?thesis by (simp add: lead_append_blank)
next
  case False
  then show ?thesis using lead_le [of p] by (simp add: lead_append_nonblank)
qed

lemma trail_append_le: "trail (x @ d) \<le> length d + trail (p @ x)"
  using lead_append_le [of "rev d" "rev x" "rev p"] by (simp add: trail_def)

lemma trail_append_nonblank: "\<not> blank d \<Longrightarrow> trail (x @ d) \<le> length d"
  using lead_le [of "rev d"] by (simp add: trail_def lead_append_nonblank)

lemma trail_append_blank: "blank d \<Longrightarrow> trail (x @ d) = length d + trail x"
  by (simp add: trail_def lead_append_blank)

lemma lead_space: "j < lead s \<Longrightarrow> isspace (s ! j)"
proof -
  assume j: "j < lead s"
  then have "takeWhile isspace s ! j \<in> set (takeWhile isspace s)"
    by (simp add: lead_def)
  then have "isspace (takeWhile isspace s ! j)" by (rule set_takeWhileD [THEN conjunct2])
  with j show ?thesis by (simp add: lead_def takeWhile_nth)
qed

lemma trail_space:
  assumes "length s - trail s \<le> j" and "j < length s"
  shows "isspace (s ! j)"
proof -
  have "length s - Suc j < lead (rev s)" using assms by (simp add: trail_def)
  then have "isspace (rev s ! (length s - Suc j))" by (rule lead_space)
  with assms(2) show ?thesis by (simp add: rev_nth)
qed

lemma strip_blank: "blank s \<Longrightarrow> strip s = []"
proof -
  assume "blank s"
  then have d: "dropWhile isspace s = []" by (simp add: blank_iff)
  show ?thesis unfolding strip_def d by simp
qed

lemma lead_less: "\<not> blank s \<Longrightarrow> lead s < length s"
proof -
  assume "\<not> blank s"
  then have "takeWhile isspace s \<noteq> s" by (auto simp: blank_iff takeWhile_eq_all_conv)
  then have "length (takeWhile isspace s) \<noteq> length s"
    by (metis takeWhile_eq_take take_all_iff le_refl)
  with lead_le [of s] show ?thesis by (simp add: lead_def)
qed

lemma strip_window:
  assumes "\<not> blank s"
  shows "strip s = window s (lead s, length s - trail s)" and "lead s + trail s < length s"
proof -
  let ?Y = "dropWhile isspace s"
  have s: "s = takeWhile isspace s @ ?Y" by simp
  have Y: "?Y = drop (lead s) s" by (simp add: lead_def dropWhile_eq_drop)
  have "blank (takeWhile isspace s)" by (auto simp: blank_iff dest: set_takeWhileD)
  with assms s have nbY: "\<not> blank ?Y" by (metis blank_append)
  have "rev s = rev ?Y @ rev (takeWhile isspace s)" by (metis rev_append s)
  then have "lead (rev s) = lead (rev ?Y)"
    using nbY lead_append_nonblank [of "rev ?Y" "rev (takeWhile isspace s)"] by simp
  then have t: "trail s = lead (rev ?Y)" by (simp add: trail_def)
  have "lead (rev ?Y) < length (rev ?Y)" using nbY by (intro lead_less) simp
  then have lt: "lead (rev ?Y) < length ?Y" by simp
  have "dropWhile isspace (rev ?Y) = drop (lead (rev ?Y)) (rev ?Y)"
    by (simp add: lead_def dropWhile_eq_drop)
  then have "strip s = rev (drop (lead (rev ?Y)) (rev ?Y))" by (simp add: strip_def)
  also have "\<dots> = take (length ?Y - lead (rev ?Y)) ?Y" by (simp add: rev_drop)
  finally have st: "strip s = take (length ?Y - trail s) (drop (lead s) s)" using t Y by simp
  have len: "length ?Y = length s - lead s" using Y by simp
  have "length s - lead s - trail s = length s - trail s - lead s" by arith
  with st len show "strip s = window s (lead s, length s - trail s)"
    by (simp add: window_def)
  from lt t len show "lead s + trail s < length s" by simp
qed

lemma window_in:
  assumes "b \<le> length C"
  shows "window (pre @ C @ R) (length pre + a, length pre + b) = window C (a, b)"
  using assms by (simp add: window_def)

lemma window_left: "snd sp \<le> length A \<Longrightarrow> window (A @ B) sp = window A sp"
  by (simp add: window_def)

lemma advancing_snoc:
  "advancing ov (sps @ [sp]) \<longleftrightarrow>
     advancing ov sps
     \<and> (sps = [] \<or> fst (last sps) \<le> fst sp \<and> snd (last sps) \<le> snd sp
                     \<and> int (snd (last sps)) \<le> int (fst sp) + ov)"
  by (induction ov sps rule: advancing.induct) auto

lemma advancing_append:
  assumes "advancing ov xs" and "advancing ov ys"
    and "xs = [] \<or> ys = [] \<or> fst (last xs) \<le> fst (hd ys) \<and> snd (last xs) \<le> snd (hd ys)
                     \<and> int (snd (last xs)) \<le> int (fst (hd ys)) + ov"
  shows "advancing ov (xs @ ys)"
  using assms
proof (induction ov xs rule: advancing.induct)
  case (1 ov)
  then show ?case by simp
next
  case (2 ov sp)
  then show ?case by (cases ys) auto
next
  case (3 ov sp sq sps)
  then show ?case by auto
qed

lemma covered_append: "covered (xs @ ys) j \<longleftrightarrow> covered xs j \<or> covered ys j"
  by (auto simp: covered_def list_ex_iff)


lemma str_join_empty: "str_join [] ds = concat ds"
  by (induction "[] :: string" ds rule: str_join.induct) simp_all

lemma covered_mono: "covered xs j \<Longrightarrow> covered (xs @ ys) j"
  by (simp add: covered_append)

lemma span_ok_mono: "span_ok cs n sp \<Longrightarrow> n \<le> m \<Longrightarrow> span_ok cs m sp"
  unfolding span_ok_def using order_trans by blast

lemma emit_current:
  assumes inv: "merge_inv cs ov T pre (docs, cur, tot) sps"
    and T: "T = pre @ concat cur @ R"
  shows "\<exists>sps'. docs @ (case join_docs cur [] of None \<Rightarrow> [] | Some doc \<Rightarrow> [doc])
                  = map (window T) sps'
     \<and> list_all (span_ok cs (length pre + length (concat cur))) sps'
     \<and> advancing ov sps'
     \<and> list_all (\<lambda>j. isspace (T ! j) \<or> covered sps' j)
          [0..<length pre + length (concat cur)]
     \<and> (sps' = [] \<or>
          fst (last sps') \<le> length pre + lead (concat cur)
          \<and> snd (last sps') \<le> length pre + length (concat cur)
          \<and> (blank (concat cur)
              \<or> snd (last sps') + trail (concat cur) \<le> length pre + length (concat cur)))"
proof -
  let ?C = "concat cur"
  let ?p = "length pre"
  from inv have tot: "tot = int (length ?C)" and le: "tot \<le> cs"
    and docs: "docs = map (window T) sps"
    and ok: "\<forall>sp \<in> set sps. span_ok cs (?p + length ?C) sp"
    and adv: "advancing ov sps"
    and cov: "\<forall>j < ?p. isspace (T ! j) \<or> covered sps j"
    and lst: "sps = [] \<or>
             fst (last sps) \<le> ?p + lead ?C
             \<and> int (snd (last sps)) \<le> int ?p + ov
             \<and> (blank ?C \<or> snd (last sps) + trail ?C \<le> ?p + length ?C)"
    by (simp_all add: merge_inv_def list_all_iff)
  show ?thesis
  proof (cases "blank ?C")
    case True
    then have j: "join_docs cur [] = None"
      by (simp add: join_docs_def str_join_empty strip_blank)
    have c: "\<forall>j < ?p + length ?C. isspace (T ! j) \<or> covered sps j"
    proof (intro allI impI)
      fix j assume "j < ?p + length ?C"
      show "isspace (T ! j) \<or> covered sps j"
      proof (cases "j < ?p")
        case True
        with cov show ?thesis by simp
      next
        case False
        with \<open>j < ?p + length ?C\<close> have jc: "j - ?p < length ?C" by arith
        with False have "T ! j = ?C ! (j - ?p)" by (simp add: T nth_append)
        moreover have "isspace (?C ! (j - ?p))"
          using jc \<open>blank ?C\<close> nth_mem [of "j - ?p" ?C] unfolding blank_iff by blast
        ultimately show ?thesis by simp
      qed
    qed
    have l: "sps = [] \<or>
          fst (last sps) \<le> ?p + lead ?C \<and> snd (last sps) \<le> ?p + length ?C
          \<and> (blank ?C \<or> snd (last sps) + trail ?C \<le> ?p + length ?C)"
    proof (cases "sps = []")
      case True
      then show ?thesis by simp
    next
      case False
      then have "last sps \<in> set sps" by simp
      with ok have "snd (last sps) \<le> ?p + length ?C" by (simp add: span_ok_def)
      with lst False show ?thesis by simp
    qed
    from j docs ok adv c l show ?thesis
      by (intro exI [of _ sps]) (simp add: list_all_iff)
  next
    case False
    let ?sp = "(?p + lead ?C, ?p + length ?C - trail ?C)"
    from strip_window [OF False]
    have sw: "strip ?C = window ?C (lead ?C, length ?C - trail ?C)"
      and lt: "lead ?C + trail ?C < length ?C" by simp_all
    have ne: "strip ?C \<noteq> []" using sw lt by (simp add: window_def)
    then have j: "join_docs cur [] = Some (strip ?C)"
      by (simp add: join_docs_def str_join_empty)
    have "window (pre @ ?C @ R) (?p + lead ?C, ?p + (length ?C - trail ?C))
            = window ?C (lead ?C, length ?C - trail ?C)"
      by (rule window_in) simp
    moreover have "?p + (length ?C - trail ?C) = ?p + length ?C - trail ?C"
      using lt by simp
    ultimately have w: "window T ?sp = strip ?C" using sw T by simp
    have sok: "span_ok cs (?p + length ?C) ?sp"
      using lt le tot by (simp add: span_ok_def)
    have adv': "advancing ov (sps @ [?sp])"
    proof (cases "sps = []")
      case True
      then show ?thesis by simp
    next
      case ne: False
      with lst False have "fst (last sps) \<le> ?p + lead ?C"
        and "int (snd (last sps)) \<le> int ?p + ov"
        and "snd (last sps) + trail ?C \<le> ?p + length ?C" by simp_all
      with adv ne show ?thesis by (simp add: advancing_snoc)
    qed
    have c: "\<forall>j < ?p + length ?C. isspace (T ! j) \<or> covered (sps @ [?sp]) j"
    proof (intro allI impI)
      fix j assume jl: "j < ?p + length ?C"
      show "isspace (T ! j) \<or> covered (sps @ [?sp]) j"
      proof (cases "j < ?p")
        case True
        with cov show ?thesis by (auto simp: covered_append)
      next
        case nl: False
        with jl have jc: "j - ?p < length ?C" by arith
        with nl have e: "T ! j = ?C ! (j - ?p)" by (simp add: T nth_append)
        show ?thesis
        proof (cases "isspace (T ! j)")
          case True
          then show ?thesis by simp
        next
          case ns: False
          have "\<not> j - ?p < lead ?C" using lead_space [of "j - ?p" ?C] ns e by auto
          moreover have "\<not> length ?C - trail ?C \<le> j - ?p"
            using trail_space [of ?C "j - ?p"] ns e jc by auto
          ultimately have "?p + lead ?C \<le> j \<and> j < ?p + length ?C - trail ?C"
            using nl by arith
          then have "covered [?sp] j" by (simp add: covered_def)
          then show ?thesis by (simp add: covered_append)
        qed
      qed
    qed
    have "docs @ (case join_docs cur [] of None \<Rightarrow> [] | Some doc \<Rightarrow> [doc])
            = map (window T) (sps @ [?sp])"
      using j docs w by simp
    moreover have "list_all (span_ok cs (?p + length ?C)) (sps @ [?sp])"
      using ok sok by (simp add: list_all_iff)
    moreover have "list_all (\<lambda>j. isspace (T ! j) \<or> covered (sps @ [?sp]) j)
                     [0..<?p + length ?C]"
      using c by (simp add: list_all_iff)
    moreover have "fst (last (sps @ [?sp])) \<le> ?p + lead ?C
          \<and> snd (last (sps @ [?sp])) \<le> ?p + length ?C
          \<and> snd (last (sps @ [?sp])) + trail ?C \<le> ?p + length ?C"
      using lt by simp
    ultimately show ?thesis using adv' by (intro exI [of _ "sps @ [?sp]"]) simp
  qed
qed


lemma last_span_le:
  assumes "list_all (span_ok cs n) sps" and "sps \<noteq> []"
  shows "snd (last sps) \<le> n"
proof -
  from assms(2) have "last sps \<in> set sps" by simp
  with assms(1) show ?thesis by (simp add: list_all_iff span_ok_def)
qed

lemma carried_last:
  assumes a: "a \<le> p + lead (P @ C')"
    and b: "b \<le> p + length (P @ C')"
    and t: "blank (P @ C') \<or> b + trail (P @ C') \<le> p + length (P @ C')"
    and o: "int (length C') \<le> ov"
  shows "a \<le> p + length P + lead (C' @ d)
         \<and> int b \<le> int (p + length P) + ov
         \<and> (blank (C' @ d) \<or> b + trail (C' @ d) \<le> p + length P + length (C' @ d))"
proof -
  have 1: "a \<le> p + length P + lead (C' @ d)"
    using a lead_append_le [of P C' d] by arith
  have 2: "int b \<le> int (p + length P) + ov" using b o by simp
  have 3: "blank (C' @ d) \<or> b + trail (C' @ d) \<le> p + length P + length (C' @ d)"
  proof (cases "blank (P @ C')")
    case True
    show ?thesis
    proof (cases "blank d")
      case bd: True
      with True show ?thesis by simp
    next
      case False
      then have "trail (C' @ d) \<le> length d" by (rule trail_append_nonblank)
      with b show ?thesis by simp
    qed
  next
    case False
    with t have "b + trail (P @ C') \<le> p + length (P @ C')" by blast
    with trail_append_le [of C' d P] show ?thesis by simp
  qed
  from 1 2 3 show ?thesis by blast
qed

lemma merge_step_inv:
  assumes inv: "merge_inv cs ov T pre (docs, cur, tot) sps"
    and T: "T = pre @ concat cur @ d @ R"
    and ov: "0 \<le> ov" and d: "int (length d) \<le> cs"
  shows "\<exists>docs' cur' tot' pre' sps'.
           merge_step cs ov [] (docs, cur, tot) d = Some (docs', cur', tot')
           \<and> merge_inv cs ov T pre' (docs', cur', tot') sps'
           \<and> T = pre' @ concat cur' @ R"
proof -
  let ?C = "concat cur"
  let ?p = "length pre"
  from inv have tot: "tot = int (length ?C)" and le: "tot \<le> cs"
    by (simp_all add: merge_inv_def)
  from emit_current [OF inv, of "d @ R"] T obtain sps' where
    e1: "docs @ (case join_docs cur [] of None \<Rightarrow> [] | Some doc \<Rightarrow> [doc])
           = map (window T) sps'"
    and e2: "list_all (span_ok cs (?p + length ?C)) sps'"
    and e3: "advancing ov sps'"
    and e4: "list_all (\<lambda>j. isspace (T ! j) \<or> covered sps' j) [0..<?p + length ?C]"
    and e5: "sps' = [] \<or>
          fst (last sps') \<le> ?p + lead ?C
          \<and> snd (last sps') \<le> ?p + length ?C
          \<and> (blank ?C \<or> snd (last sps') + trail ?C \<le> ?p + length ?C)"
    by auto
  show ?thesis
  proof (cases "tot + int (length d) > cs \<and> cur \<noteq> []")
    case True
    from pop_overlap_ok [OF ov tot, of cs "int (length d)"]
    obtain cur' tot' where
      p: "pop_overlap cs ov 0 (int (length d)) cur tot = Some (cur', tot')"
      and suf: "suffix cur' cur" and tot': "tot' = int (length (concat cur'))"
      and tov: "tot' \<le> ov"
      and fit: "tot' + int (length d) \<le> cs \<or> tot' \<le> 0"
      by blast
    from suf obtain zs where zs: "cur = zs @ cur'" by (auto simp: suffix_def)
    let ?P = "concat zs"
    let ?C' = "concat cur'"
    have C: "?C = ?P @ ?C'" using zs by simp
    have step: "merge_step cs ov [] (docs, cur, tot) d
                  = Some (docs @ (case join_docs cur [] of None \<Rightarrow> [] | Some doc \<Rightarrow> [doc]),
                          cur' @ [d], tot' + int (length d))"
      using True p by (simp add: merge_step_def Let_def)
    have T': "T = (pre @ ?P) @ concat (cur' @ [d]) @ R" using T C by simp
    have i1: "tot' + int (length d) = int (length (concat (cur' @ [d])))"
      using tot' by simp
    have i2: "tot' + int (length d) \<le> cs" using fit d tot' by arith
    have n: "?p + length ?C \<le> length (pre @ ?P) + length (concat (cur' @ [d]))"
      using C by simp
    have i4: "list_all (span_ok cs (length (pre @ ?P) + length (concat (cur' @ [d])))) sps'"
      using e2 span_ok_mono [OF _ n] by (auto simp: list_all_iff)
    have "length (pre @ ?P) \<le> ?p + length ?C" using C by simp
    then have i6: "list_all (\<lambda>j. isspace (T ! j) \<or> covered sps' j) [0..<length (pre @ ?P)]"
      using e4 by (auto simp: list_all_iff)
    have i7: "sps' = [] \<or>
             fst (last sps') \<le> length (pre @ ?P) + lead (concat (cur' @ [d]))
             \<and> int (snd (last sps')) \<le> int (length (pre @ ?P)) + ov
             \<and> (blank (concat (cur' @ [d]))
                 \<or> snd (last sps') + trail (concat (cur' @ [d]))
                      \<le> length (pre @ ?P) + length (concat (cur' @ [d])))"
    proof (cases "sps' = []")
      case True
      then show ?thesis by simp
    next
      case False
      with e5 have a: "fst (last sps') \<le> ?p + lead (?P @ ?C')"
        and b: "snd (last sps') \<le> ?p + length (?P @ ?C')"
        and t: "blank (?P @ ?C') \<or> snd (last sps') + trail (?P @ ?C') \<le> ?p + length (?P @ ?C')"
        using C by simp_all
      have o: "int (length ?C') \<le> ov" using tov tot' by simp
      from carried_last [OF a b t o, of d] show ?thesis by simp
    qed
    have "merge_inv cs ov T (pre @ ?P)
            (docs @ (case join_docs cur [] of None \<Rightarrow> [] | Some doc \<Rightarrow> [doc]),
             cur' @ [d], tot' + int (length d)) sps'"
      unfolding merge_inv_def using i1 i2 e1 i4 e3 i6 i7 by simp
    with step T' show ?thesis by blast
  next
    case False
    have step: "merge_step cs ov [] (docs, cur, tot) d
                  = Some (docs, cur @ [d], tot + int (length d))"
      using False by (auto simp: merge_step_def Let_def)
    from inv have docs: "docs = map (window T) sps"
      and ok: "list_all (span_ok cs (?p + length ?C)) sps"
      and adv: "advancing ov sps"
      and cov: "list_all (\<lambda>j. isspace (T ! j) \<or> covered sps j) [0..<?p]"
      and lst: "sps = [] \<or>
             fst (last sps) \<le> ?p + lead ?C
             \<and> int (snd (last sps)) \<le> int ?p + ov
             \<and> (blank ?C \<or> snd (last sps) + trail ?C \<le> ?p + length ?C)"
      by (simp_all add: merge_inv_def)
    have T': "T = pre @ concat (cur @ [d]) @ R" using T by simp
    have i1: "tot + int (length d) = int (length (concat (cur @ [d])))" using tot by simp
    have i2: "tot + int (length d) \<le> cs"
    proof (cases "cur = []")
      case True
      with tot d show ?thesis by simp
    next
      case ne: False
      with False show ?thesis by simp
    qed
    have n: "?p + length ?C \<le> ?p + length (concat (cur @ [d]))" by simp
    have i4: "list_all (span_ok cs (?p + length (concat (cur @ [d])))) sps"
      using ok span_ok_mono [OF _ n] by (auto simp: list_all_iff)
    have i7: "sps = [] \<or>
             fst (last sps) \<le> ?p + lead (concat (cur @ [d]))
             \<and> int (snd (last sps)) \<le> int ?p + ov
             \<and> (blank (concat (cur @ [d]))
                 \<or> snd (last sps) + trail (concat (cur @ [d]))
                      \<le> ?p + length (concat (cur @ [d])))"
    proof (cases "sps = []")
      case True
      then show ?thesis by simp
    next
      case ne: False
      with lst have a: "fst (last sps) \<le> ?p + lead ([] @ ?C)"
        and o: "int (snd (last sps)) \<le> int ?p + ov"
        and t: "blank ([] @ ?C) \<or> snd (last sps) + trail ([] @ ?C) \<le> ?p + length ([] @ ?C)"
        by simp_all
      have b: "snd (last sps) \<le> ?p + length ([] @ ?C)"
        using last_span_le [OF ok ne] by simp
      have 1: "fst (last sps) \<le> ?p + lead (?C @ d)"
        using a lead_append_le [of "[]" ?C d] by simp
      have 3: "blank (?C @ d) \<or> snd (last sps) + trail (?C @ d) \<le> ?p + length (?C @ d)"
      proof (cases "blank ?C")
        case True
        show ?thesis
        proof (cases "blank d")
          case bd: True
          with True show ?thesis by simp
        next
          case False
          then have "trail (?C @ d) \<le> length d" by (rule trail_append_nonblank)
          with b show ?thesis by simp
        qed
      next
        case False
        with t have "snd (last sps) + trail ?C \<le> ?p + length ?C" by simp
        with trail_append_le [of ?C d "[]"] show ?thesis by simp
      qed
      from 1 o 3 show ?thesis by simp
    qed
    have "merge_inv cs ov T pre (docs, cur @ [d], tot + int (length d)) sps"
      unfolding merge_inv_def using i1 i2 docs i4 adv cov i7 by simp
    with step T' show ?thesis by blast
  qed
qed


lemma merge_splits_loop_layout:
  assumes "0 \<le> ov" and "\<forall>d \<in> set splits. int (length d) \<le> cs"
    and "merge_inv cs ov T pre (docs, cur, tot) sps"
    and "T = pre @ concat cur @ concat splits"
  shows "\<exists>out sps'. merge_splits_loop cs ov [] (docs, cur, tot) splits = Some out
           \<and> layout cs ov T out sps'"
  using assms
proof (induction splits arbitrary: docs cur tot pre sps)
  case Nil
  then have T: "T = pre @ concat cur @ []" by simp
  then have n: "length pre + length (concat cur) = length T" by simp
  from emit_current [OF Nil.prems(3) T] obtain sps' where
    "docs @ (case join_docs cur [] of None \<Rightarrow> [] | Some doc \<Rightarrow> [doc]) = map (window T) sps'"
    "list_all (span_ok cs (length pre + length (concat cur))) sps'"
    "advancing ov sps'"
    "list_all (\<lambda>j. isspace (T ! j) \<or> covered sps' j) [0..<length pre + length (concat cur)]"
    by blast
  then have "layout cs ov T
               (docs @ (case join_docs cur [] of None \<Rightarrow> [] | Some doc \<Rightarrow> [doc])) sps'"
    unfolding n layout_def by simp
  then show ?case by auto
next
  case (Cons d splits)
  have d: "int (length d) \<le> cs" using Cons.prems(2) by simp
  have T: "T = pre @ concat cur @ d @ concat splits" using Cons.prems(4) by simp
  from merge_step_inv [OF Cons.prems(3) T Cons.prems(1) d]
  obtain docs' cur' tot' pre' sps' where
    step: "merge_step cs ov [] (docs, cur, tot) d = Some (docs', cur', tot')"
    and inv: "merge_inv cs ov T pre' (docs', cur', tot') sps'"
    and T': "T = pre' @ concat cur' @ concat splits"
    by blast
  have rest: "\<forall>d \<in> set splits. int (length d) \<le> cs" using Cons.prems(2) by simp
  from Cons.IH [OF Cons.prems(1) rest inv T'] step show ?case by simp
qed

lemma layout_empty: "layout cs ov [] [] []"
  by (simp add: layout_def)

lemma merge_good_layout:
  assumes "0 \<le> ov" and "0 \<le> cs" and "\<forall>d \<in> set good. int (length d) \<le> cs"
  shows "\<exists>out sps. merge_good cs ov good = Some out \<and> layout cs ov (concat good) out sps"
proof (cases "good = []")
  case True
  then show ?thesis using layout_empty by (auto simp: merge_good_def)
next
  case False
  have inv: "merge_inv cs ov (concat good) [] ([], [], 0) []"
    using assms(2) by (simp add: merge_inv_def)
  have T: "concat good = [] @ concat [] @ concat good" by simp
  from merge_splits_loop_layout [OF assms(1,3) inv T] False show ?thesis
    by (simp add: merge_good_def merge_splits_def)
qed

lemma advancing_shift:
  "advancing ov (map (\<lambda>sp. (n + fst sp, n + snd sp)) sps) = advancing ov sps"
  by (induction ov sps rule: advancing.induct) simp_all

lemma layout_append:
  assumes ov: "0 \<le> ov"
    and A: "layout cs ov A c1 s1" and B: "layout cs ov B c2 s2"
  shows "layout cs ov (A @ B) (c1 @ c2)
           (s1 @ map (\<lambda>sp. (length A + fst sp, length A + snd sp)) s2)"
proof -
  let ?sh = "\<lambda>sp. (length A + fst sp, length A + snd sp)"
  from A have a1: "c1 = map (window A) s1"
    and a2: "\<forall>sp \<in> set s1. span_ok cs (length A) sp"
    and a3: "advancing ov s1"
    and a4: "\<forall>j < length A. isspace (A ! j) \<or> covered s1 j"
    by (simp_all add: layout_def list_all_iff)
  from B have b1: "c2 = map (window B) s2"
    and b2: "\<forall>sp \<in> set s2. span_ok cs (length B) sp"
    and b3: "advancing ov s2"
    and b4: "\<forall>j < length B. isspace (B ! j) \<or> covered s2 j"
    by (simp_all add: layout_def list_all_iff)
  have w1: "map (window (A @ B)) s1 = map (window A) s1"
    using a2 by (simp add: span_ok_def window_left)
  have w2: "map (window (A @ B)) (map ?sh s2) = map (window B) s2"
    by (simp add: window_def)
  have 1: "c1 @ c2 = map (window (A @ B)) (s1 @ map ?sh s2)"
    using a1 b1 w1 w2 by simp
  have 2: "\<forall>sp \<in> set (s1 @ map ?sh s2). span_ok cs (length (A @ B)) sp"
    using a2 b2 by (auto simp: span_ok_def)
  have 3: "advancing ov (s1 @ map ?sh s2)"
  proof (rule advancing_append)
    show "advancing ov s1" by (rule a3)
    show "advancing ov (map ?sh s2)" using b3 by (simp add: advancing_shift)
    show "s1 = [] \<or> map ?sh s2 = [] \<or>
            fst (last s1) \<le> fst (hd (map ?sh s2)) \<and> snd (last s1) \<le> snd (hd (map ?sh s2))
            \<and> int (snd (last s1)) \<le> int (fst (hd (map ?sh s2))) + ov"
    proof (cases "s1 = [] \<or> s2 = []")
      case True
      then show ?thesis by auto
    next
      case False
      then have "last s1 \<in> set s1" by simp
      with a2 have "fst (last s1) < snd (last s1)" "snd (last s1) \<le> length A"
        by (simp_all add: span_ok_def)
      moreover from False have "hd (map ?sh s2) = ?sh (hd s2)" by (simp add: hd_map)
      ultimately show ?thesis using ov by simp
    qed
  qed
  have 4: "\<forall>j < length (A @ B). isspace ((A @ B) ! j) \<or> covered (s1 @ map ?sh s2) j"
  proof (intro allI impI)
    fix j assume jl: "j < length (A @ B)"
    show "isspace ((A @ B) ! j) \<or> covered (s1 @ map ?sh s2) j"
    proof (cases "j < length A")
      case True
      with a4 show ?thesis by (auto simp: nth_append covered_append)
    next
      case False
      with jl have jb: "j - length A < length B" by simp
      from False have e: "(A @ B) ! j = B ! (j - length A)" by (simp add: nth_append)
      from b4 jb have "isspace (B ! (j - length A)) \<or> covered s2 (j - length A)" by simp
      moreover have "covered s2 (j - length A) \<Longrightarrow> covered (map ?sh s2) j"
      proof -
        assume "covered s2 (j - length A)"
        then obtain sp where "sp \<in> set s2" "fst sp \<le> j - length A" "j - length A < snd sp"
          by (auto simp: covered_def list_ex_iff)
        moreover from this False have "length A + fst sp \<le> j \<and> j < length A + snd sp"
          by arith
        ultimately show ?thesis by (auto simp: covered_def list_ex_iff)
      qed
      ultimately show ?thesis using e by (auto simp: covered_append)
    qed
  qed
  from 1 2 3 4 show ?thesis by (simp add: layout_def list_all_iff)
qed

lemma split_pieces_layout:
  assumes "0 \<le> ov" and "0 \<le> cs"
    and "case recurse of
           None \<Rightarrow> (\<forall>s \<in> set splits. int (length s) < cs)
         | Some r \<Rightarrow> (\<forall>s. \<exists>out sps. r s = Some out \<and> layout cs ov s out sps)"
    and "\<forall>g \<in> set good. int (length g) < cs"
  shows "\<exists>out sps. split_pieces cs ov recurse good splits = Some out
           \<and> layout cs ov (concat good @ concat splits) out sps"
  using assms
proof (induction splits arbitrary: good)
  case Nil
  have g: "\<forall>d \<in> set good. int (length d) \<le> cs" using Nil.prems(4) by auto
  from merge_good_layout [OF Nil.prems(1,2) g] show ?case by simp
next
  case (Cons s splits)
  have rec: "case recurse of
           None \<Rightarrow> (\<forall>s \<in> set splits. int (length s) < cs)
         | Some r \<Rightarrow> (\<forall>s. \<exists>out sps. r s = Some out \<and> layout cs ov s out sps)"
    using Cons.prems(3) by (cases recurse) simp_all
  show ?case
  proof (cases "int (length s) < cs")
    case True
    have g: "\<forall>g \<in> set (good @ [s]). int (length g) < cs" using True Cons.prems(4) by simp
    from Cons.IH [OF Cons.prems(1,2) rec g] True show ?thesis by simp
  next
    case False
    have g: "\<forall>d \<in> set good. int (length d) \<le> cs" using Cons.prems(4) by auto
    from merge_good_layout [OF Cons.prems(1,2) g] obtain merged ms where
      m: "merge_good cs ov good = Some merged" and ml: "layout cs ov (concat good) merged ms"
      by blast
    from False Cons.prems(3) obtain r where r: "recurse = Some r"
      by (cases recurse) auto
    with Cons.prems(3) have "\<exists>out sps. r s = Some out \<and> layout cs ov s out sps"
      by simp
    then obtain other os where
      o: "r s = Some other" and ol: "layout cs ov s other os"
      by blast
    have e: "\<forall>g \<in> set []. int (length (g :: string)) < cs" by simp
    from Cons.IH [OF Cons.prems(1,2) rec e] obtain rest rs where
      t: "split_pieces cs ov recurse [] splits = Some rest"
      and tl: "layout cs ov (concat splits) rest rs"
      by auto
    from layout_append [OF Cons.prems(1) ol tl]
    obtain us where "layout cs ov (s @ concat splits) (other @ rest) us" by blast
    from layout_append [OF Cons.prems(1) ml this]
    obtain vs where "layout cs ov (concat good @ s @ concat splits)
                       (merged @ other @ rest) vs" by blast
    with False m r o t show ?thesis by auto
  qed
qed


lemma split_text_rec_layout:
  assumes "0 \<le> ov" and "1 < cs" and "seps \<noteq> []" and "last seps = []"
  shows "\<exists>out sps. split_text_rec cs ov seps str = Some out \<and> layout cs ov str out sps"
  using assms(3,4)
proof (induction seps arbitrary: str)
  case Nil
  then show ?case by simp
next
  case (Cons s rest)
  have cs0: "0 \<le> cs" using assms(2) by simp
  have whole: "concat [] @ concat (split_text_with_regex str s) = str"
    by (simp add: split_text_with_regex_concat)
  have e: "\<forall>g \<in> set []. int (length (g :: string)) < cs" by simp
  show ?case
  proof (cases "s = []")
    case True
    have "\<forall>p \<in> set (split_text_with_regex str []). int (length p) < cs"
      using split_text_with_regex_chars [of str] assms(2) by auto
    then have rec: "case None of
           None \<Rightarrow> (\<forall>p \<in> set (split_text_with_regex str s). int (length p) < cs)
         | Some r \<Rightarrow> (\<forall>p. \<exists>out sps. r p = Some out \<and> layout cs ov p out sps)"
      using True by simp
    from split_pieces_layout [OF assms(1) cs0 rec e] whole True show ?thesis by simp
  next
    case False
    with Cons.prems have rest: "rest \<noteq> []" "last rest = []"
      by (auto split: if_splits)
    have ih: "\<And>p. \<exists>out sps. split_text_rec cs ov rest p = Some out \<and> layout cs ov p out sps"
      using Cons.IH [OF rest] by blast
    show ?thesis
    proof (cases "re_search s str")
      case True
      have rec: "case Some (\<lambda>piece. split_text_rec cs ov rest piece) of
           None \<Rightarrow> (\<forall>p \<in> set (split_text_with_regex str s). int (length p) < cs)
         | Some r \<Rightarrow> (\<forall>p. \<exists>out sps. r p = Some out \<and> layout cs ov p out sps)"
        using ih by simp
      from split_pieces_layout [OF assms(1) cs0 rec e] whole False True rest(1)
      show ?thesis by simp
    next
      case nf: False
      with False rest(1) ih [of str] show ?thesis by simp
    qed
  qed
qed

lemma get_text_chunks_layout:
  "\<exists>chunks spans. get_text_chunks str = Inr chunks \<and> layout 10000 1000 str chunks spans"
proof -
  have "\<exists>out sps. split_text_rec 10000 1000 default_separators str = Some out
          \<and> layout 10000 1000 str out sps"
    by (rule split_text_rec_layout) (simp_all add: default_separators_def)
  then show ?thesis by (auto simp: get_text_chunks_def split_text_def)
qed

subsection \<open>Two words that do not fit one chunk\<close>

lemma isspace_newline: "isspace (CHR 0x0A)"
  by (simp add: isspace_def)

lemma isspace_space: "isspace (CHR 0x20)"
  by (simp add: isspace_def)

lemma re_search_absent: "c \<notin> set str \<Longrightarrow> \<not> re_search (c # sep) str"
  by (induction str) auto

lemma re_search_present: "c \<in> set str \<Longrightarrow> re_search [c] str"
  by (induction str) auto

lemma re_split_absent: "c \<notin> set str \<Longrightarrow> re_split [c] str = [str]"
  by (induction str) auto

lemma re_split_first:
  "c \<notin> set A \<Longrightarrow> re_split [c] (A @ c # B) = A # re_split [c] B"
  by (induction A) auto

lemma strip_solid: "\<forall>c \<in> set s. \<not> isspace c \<Longrightarrow> strip s = s"
proof -
  assume a: "\<forall>c \<in> set s. \<not> isspace c"
  have d: "\<And>xs. \<forall>c \<in> set xs. \<not> isspace c \<Longrightarrow> dropWhile isspace xs = xs"
    by (case_tac xs) auto
  from a have "dropWhile isspace s = s" by (rule d)
  moreover from a have "dropWhile isspace (rev s) = rev s" by (intro d) simp
  ultimately show ?thesis by (simp add: strip_def)
qed

lemma split_text_two_words:
  assumes A: "A \<noteq> []" "\<forall>c \<in> set A. \<not> isspace c"
    and B: "B \<noteq> []" "\<forall>c \<in> set B. \<not> isspace c"
    and lA: "int (length A) < cs" and lB: "int (length B) + 1 < cs"
    and big: "cs < int (length A) + int (length B) + 1"
    and ov: "0 \<le> ov" "ov < int (length A)"
  shows "split_text cs ov (A @ CHR 0x20 # B) = Some [A, B]"
proof -
  let ?t = "A @ CHR 0x20 # B"
  have nl: "CHR 0x0A \<notin> set ?t" using A(2) B(2) isspace_newline by auto
  have spA: "CHR 0x20 \<notin> set A" using A(2) isspace_space by auto
  have spB: "CHR 0x20 \<notin> set B" using B(2) isspace_space by auto
  have s1: "\<not> re_search [CHR 0x0A, CHR 0x0A] ?t" using nl by (rule re_search_absent)
  have s2: "\<not> re_search [CHR 0x0A] ?t" using nl by (rule re_search_absent)
  have s3: "re_search [CHR 0x20] ?t" by (rule re_search_present) simp
  have "re_split [CHR 0x20] ?t = [A, B]"
    using re_split_first [OF spA, of B] re_split_absent [OF spB] by simp
  then have pieces: "split_text_with_regex ?t [CHR 0x20] = [A, CHR 0x20 # B]"
    using A(1) by (simp add: split_text_with_regex_def)
  have jA: "join_docs [A] [] = Some A"
    using A strip_solid [OF A(2)] by (simp add: join_docs_def)
  have "strip (CHR 0x20 # B) = B"
  proof -
    have "dropWhile isspace (CHR 0x20 # B) = B"
      using B isspace_space by (cases B) auto
    moreover have "dropWhile isspace (rev B) = rev B"
      using B by (cases "rev B") auto
    ultimately show ?thesis by (simp add: strip_def)
  qed
  then have jB: "join_docs [CHR 0x20 # B] [] = Some B"
    using B(1) by (simp add: join_docs_def)
  have st1: "merge_step cs ov [] ([], [], 0) A = Some ([], [A], int (length A))"
    by (simp add: merge_step_def)
  have pop: "pop_overlap cs ov 0 (int (length (CHR 0x20 # B))) [A] (int (length A))
               = Some ([], 0)"
    using ov by simp
  have st2: "merge_step cs ov [] ([], [A], int (length A)) (CHR 0x20 # B)
               = Some ([A], [CHR 0x20 # B], int (length (CHR 0x20 # B)))"
    using big pop jA by (simp add: merge_step_def Let_def)
  have m: "merge_good cs ov [A, CHR 0x20 # B] = Some [A, B]"
    using st1 st2 jB by (simp add: merge_good_def merge_splits_def)
  have sp: "\<And>r. split_pieces cs ov r [] [A, CHR 0x20 # B] = Some [A, B]"
    using lA lB m by simp
  have "split_text_rec cs ov [[CHR 0x20], []] ?t = Some [A, B]"
    using s3 pieces sp by simp
  then show ?thesis
    using s1 s2 by (simp add: split_text_def default_separators_def)
qed

subsection \<open>The chunks of a text\<close>

text \<open>
  Claim C1, as stated: the chunks are windows of exactly 10,000 characters that overlap
  by exactly 1,000 characters and make up the text. A text of 12,001 characters, two
  words of 6,000 letters with a space between them, gives two chunks of 6,000
  characters: the first is not the last and is shorter than 10,000, the two have no
  character in common, and the space belongs to neither.
\<close>

theorem get_text_chunks_two_words_counterexample:
  "get_text_chunks (replicate 6000 (CHR ''a'') @ '' '' @ replicate 6000 (CHR ''b''))
     = Inr [replicate 6000 (CHR ''a''), replicate 6000 (CHR ''b'')]
   \<and> length (replicate 6000 (CHR ''a'') @ '' '' @ replicate 6000 (CHR ''b'')) = 12001
   \<and> length (replicate 6000 (CHR ''a'')) \<noteq> 10000
   \<and> set (replicate 6000 (CHR ''a'')) \<inter> set (replicate 6000 (CHR ''b'')) = {}
   \<and> CHR '' '' \<notin> set (replicate 6000 (CHR ''a'')) \<union> set (replicate 6000 (CHR ''b''))"
proof -
  have a: "\<not> isspace (CHR ''a'')" and b: "\<not> isspace (CHR ''b'')"
    by (simp_all add: isspace_def)
  have "split_text 10000 1000 (replicate 6000 (CHR ''a'') @ CHR 0x20 # replicate 6000 (CHR ''b''))
          = Some [replicate 6000 (CHR ''a''), replicate 6000 (CHR ''b'')]"
    by (rule split_text_two_words) (use a b in simp_all)
  then show ?thesis by (simp add: get_text_chunks_def)
qed

text \<open>
  Claim C1, amended. For every input text the chunking operation returns, and it
  splits the text into contiguous windows: every chunk is a non-empty window of the
  text of at most 10,000 characters, the windows follow one another through the text,
  two consecutive windows overlap by at most 1,000 characters, and every character of
  the text that is not whitespace lies in one of them. The two constants bound the
  size and the overlap of the chunks.
\<close>

theorem get_text_chunks_windows:
  "\<exists>chunks spans. get_text_chunks str = Inr chunks \<and> layout 10000 1000 str chunks spans"
proof -
  have "\<exists>out sps. split_text_rec 10000 1000 default_separators str = Some out
          \<and> layout 10000 1000 str out sps"
    by (rule split_text_rec_layout) (simp_all add: default_separators_def)
  then show ?thesis by (auto simp: get_text_chunks_def split_text_def)
qed

theorem get_text_chunks_windows_witness:
  "get_text_chunks (replicate 6000 (CHR ''a'') @ '' '' @ replicate 6000 (CHR ''b''))
     = Inr [replicate 6000 (CHR ''a''), replicate 6000 (CHR ''b'')]
   \<and> (\<exists>spans. layout 10000 1000
                  (replicate 6000 (CHR ''a'') @ '' '' @ replicate 6000 (CHR ''b''))
                  [replicate 6000 (CHR ''a''), replicate 6000 (CHR ''b'')] spans)"
proof -
  have a: "\<not> isspace (CHR ''a'')" and b: "\<not> isspace (CHR ''b'')"
    by (simp_all add: isspace_def)
  have "split_text 10000 1000 (replicate 6000 (CHR ''a'') @ CHR 0x20 # replicate 6000 (CHR ''b''))
          = Some [replicate 6000 (CHR ''a''), replicate 6000 (CHR ''b'')]"
    by (rule split_text_two_words) (use a b in simp_all)
  then have e: "get_text_chunks (replicate 6000 (CHR ''a'') @ '' '' @ replicate 6000 (CHR ''b''))
     = Inr [replicate 6000 (CHR ''a''), replicate 6000 (CHR ''b'')]"
    by (simp add: get_text_chunks_def)
  from get_text_chunks_windows
         [of "replicate 6000 (CHR ''a'') @ '' '' @ replicate 6000 (CHR ''b'')"] e
  show ?thesis by auto
qed

subsection \<open>The empty text\<close>

lemma get_text_chunks_empty: "get_text_chunks [] = Inr []"
  by code_simp

lemma no_text_concat:
  "\<forall>p \<in> set (concat pss). page_text p = [] \<Longrightarrow> concat (map page_text (concat pss)) = []"
  by (induction pss) auto

lemma process_documents_no_text:
  assumes "\<forall>p \<in> set (concat pss). page_text p = []"
  shows "\<exists>rest. calls (snd (process_documents env (map Pdf pss) key w))
                  = calls w @ [EmbeddingsClient key, FromTexts []] @ rest"
proof -
  have raw: "get_pdf_text (map Pdf pss) = Inr []"
    using no_text_concat [OF assms]
    by (simp add: get_pdf_text_def get_pdf_text_loop_readable)
  show ?thesis
    by (cases "from_texts env key []")
       (simp_all add: process_documents_def raw get_text_chunks_empty get_vector_store_def)
qed

text \<open>
  Claim C9. Chunking the empty string gives no chunk, and a processing run over
  documents none of whose pages has any text hands the empty list of chunks to the
  indexing step.
\<close>

theorem empty_text_no_chunks:
  "get_text_chunks [] = Inr []
   \<and> ((\<forall>p \<in> set (concat pss). page_text p = []) \<longrightarrow>
        (\<exists>rest. calls (snd (process_documents env (map Pdf pss) key w))
                  = calls w @ [EmbeddingsClient key, FromTexts []] @ rest))"
  using process_documents_no_text [of pss env key w] by (simp add: get_text_chunks_empty)

theorem empty_text_no_chunks_witness:
  "\<exists>rest. calls (snd (process_documents echo_env (map Pdf [[None, Some []], [None]])
                          ''k'' new_world))
              = calls new_world @ [EmbeddingsClient ''k'', FromTexts []] @ rest"
  using empty_text_no_chunks [of "[[None, Some []], [None]]" echo_env "''k''" new_world]
  by simp

end
